theory Spec2Isabelle
  imports Main "HOL-Library.Word" "HOL-Library.Multiset"
begin

section \<open>Data model\<close>

text \<open>
  Go's \<^verbatim>\<open>int64\<close> and \<^verbatim>\<open>int32\<close> are words read in two's complement: \<open>+\<close> and \<open>*\<close>
  wrap around, comparisons are the signed ones.
\<close>

type_synonym int64 = "64 word"
type_synonym int32 = "32 word"
type_synonym ResourceName = string

text \<open>
  \<^verbatim>\<open>resource.Quantity\<close> belongs to the Kubernetes API machinery. The code only calls
  \<^verbatim>\<open>MilliValue()\<close> and \<^verbatim>\<open>Value()\<close> on it, so a quantity is represented by the two
  \<^verbatim>\<open>int64\<close> results of these calls.
\<close>

record Quantity =
  MilliValue :: int64
  Value :: int64

text \<open>\<^verbatim>\<open>corev1.ResourceList\<close> is a Go map from resource names to quantities.\<close>

type_synonym ResourceList = "ResourceName \<rightharpoonup> Quantity"

text \<open>\<^verbatim>\<open>type Requests map[corev1.ResourceName]int64\<close>\<close>

type_synonym Requests = "ResourceName \<rightharpoonup> int64"

text \<open>A container, reduced to \<^verbatim>\<open>c.Resources.Requests\<close>, the only field read.\<close>

record Container =
  c_Requests :: ResourceList

record PodSpec =
  Containers :: "Container list"
  InitContainers :: "Container list"
  Overhead :: ResourceList

record PodSet =
  ps_Name :: string
  ps_Spec :: PodSpec
  ps_Count :: int32

text \<open>
  One entry of \<^verbatim>\<open>Admission.PodSetFlavors\<close>. A flavour map is kept as the list of its
  key/value pairs; \<^verbatim>\<open>len(flavors)\<close> is the length of that list, and the nil map is \<open>[]\<close>.
\<close>

type_synonym Flavors = "(ResourceName \<times> string) list"

record PodSetFlavors =
  psf_Name :: string
  psf_Flavors :: Flavors

record Admission =
  adm_ClusterQueue :: string
  adm_PodSetFlavors :: "PodSetFlavors list"

record QueuedWorkloadSpec =
  PodSets :: "PodSet list"
  QueueName :: string
  PriorityValue :: int32
  Admission :: "Admission option"

text \<open>
  A \<^verbatim>\<open>kueue.QueuedWorkload\<close>. The operations below never write through the
  \<^verbatim>\<open>Obj\<close> pointer of an \<^verbatim>\<open>Info\<close>, they only replace the pointer, so a workload
  object is a value. \<^verbatim>\<open>CreationTimestamp\<close> is an instant on the time line.
\<close>

record QueuedWorkload =
  Namespace :: string
  Name :: string
  CreationTimestamp :: int
  Spec :: QueuedWorkloadSpec

record PodSetResources =
  psr_Name :: string
  psr_Requests :: Requests
  psr_Flavors :: Flavors

record Info =
  Obj :: QueuedWorkload
  TotalRequests :: "PodSetResources list"
  ClusterQueueName :: string

section \<open>Package workload: the demand calculator\<close>

definition ResourceCPU :: ResourceName where
  "ResourceCPU = ''cpu''"

text \<open>\<^verbatim>\<open>func max(v1, v2 int64) int64\<close>, a signed comparison.\<close>

definition max64 :: "int64 \<Rightarrow> int64 \<Rightarrow> int64" where
  "max64 v1 v2 = (if v2 <s v1 then v1 else v2)"

text \<open>Reading a Go map of integers: a missing key reads as the zero value.\<close>

definition get :: "Requests \<Rightarrow> ResourceName \<Rightarrow> int64" where
  "get r name = (case r name of None \<Rightarrow> 0 | Some v \<Rightarrow> v)"

definition ResourceValue :: "ResourceName \<Rightarrow> Quantity \<Rightarrow> int64" where
  "ResourceValue name q = (if name = ResourceCPU then MilliValue q else Value q)"

text \<open>
  \<^verbatim>\<open>newRequests\<close>, \<^verbatim>\<open>add\<close>, \<^verbatim>\<open>setMax\<close> and \<^verbatim>\<open>scale\<close> each range over a Go map:
  every key is visited once, and the body reads and writes the entry of that key only.
  The result is therefore given key by key.
\<close>

definition newRequests :: "ResourceList \<Rightarrow> Requests" where
  "newRequests rl = (\<lambda>name. case rl name of None \<Rightarrow> None
                                | Some quant \<Rightarrow> Some (ResourceValue name quant))"

definition add :: "Requests \<Rightarrow> Requests \<Rightarrow> Requests" where
  "add r o' = (\<lambda>name. case o' name of None \<Rightarrow> r name
                         | Some val \<Rightarrow> Some (get r name + val))"

definition setMax :: "Requests \<Rightarrow> Requests \<Rightarrow> Requests" where
  "setMax r o' = (\<lambda>name. case o' name of None \<Rightarrow> r name
                            | Some val \<Rightarrow> Some (max64 (get r name) val))"

definition scale :: "Requests \<Rightarrow> int64 \<Rightarrow> Requests" where
  "scale r f = (\<lambda>name. case r name of None \<Rightarrow> None | Some v \<Rightarrow> Some (v * f))"

definition podRequests :: "PodSpec \<Rightarrow> Requests" where
  "podRequests spec =
     (let res = Map.empty;
          res = fold (\<lambda>c res. add res (newRequests (c_Requests c))) (Containers spec) res;
          res = fold (\<lambda>c res. setMax res (newRequests (c_Requests c))) (InitContainers spec) res
      in add res (newRequests (Overhead spec)))"

text \<open>
  \<^verbatim>\<open>totalRequests\<close>: the map \<^verbatim>\<open>podSetFlavors\<close> is filled from the admission, a later
  entry of the same name overwriting an earlier one; without an admission it is the nil
  map, where every lookup gives the nil flavour map.
\<close>

definition podSetFlavorsOf :: "Admission option \<Rightarrow> (string \<rightharpoonup> Flavors)" where
  "podSetFlavorsOf adm = (case adm of None \<Rightarrow> Map.empty
     | Some a \<Rightarrow> fold (\<lambda>ps m. m(psf_Name ps \<mapsto> psf_Flavors ps)) (adm_PodSetFlavors a) Map.empty)"

definition podSetResources :: "(string \<rightharpoonup> Flavors) \<Rightarrow> PodSet \<Rightarrow> PodSetResources" where
  "podSetResources podSetFlavors ps =
     (let requests = scale (podRequests (ps_Spec ps)) (scast (ps_Count ps));
          flavors = (case podSetFlavors (ps_Name ps) of None \<Rightarrow> [] | Some f \<Rightarrow> f)
      in \<lparr>psr_Name = ps_Name ps, psr_Requests = requests,
          psr_Flavors = (if length flavors > 0 then flavors else [])\<rparr>)"

definition totalRequests :: "QueuedWorkloadSpec \<Rightarrow> PodSetResources list" where
  "totalRequests spec =
     (if length (PodSets spec) = 0 then []
      else map (podSetResources (podSetFlavorsOf (Admission spec))) (PodSets spec))"

definition NewInfo :: "QueuedWorkload \<Rightarrow> Info" where
  "NewInfo w = \<lparr>Obj = w, TotalRequests = totalRequests (Spec w), ClusterQueueName = ''''\<rparr>"

definition Key :: "QueuedWorkload \<Rightarrow> string" where
  "Key w = Namespace w @ ''/'' @ Name w"

section \<open>Package queue\<close>

subsection \<open>Queue\<close>

text \<open>\<^verbatim>\<open>items map[string]*workload.Info\<close>: every pointer is made by \<^verbatim>\<open>NewInfo\<close> and
  stored under one key only, so the map holds the infos themselves.\<close>

record Queue =
  q_ClusterQueue :: string
  q_items :: "string \<rightharpoonup> Info"

text \<open>\<^verbatim>\<open>newQueue\<close> and \<^verbatim>\<open>update\<close> read the name of the ClusterQueue from the API object.\<close>

definition newQueue :: "string \<Rightarrow> Queue" where
  "newQueue apiClusterQueue = \<lparr>q_ClusterQueue = apiClusterQueue, q_items = Map.empty\<rparr>"

definition AddOrUpdate :: "Queue \<Rightarrow> QueuedWorkload \<Rightarrow> Queue" where
  "AddOrUpdate q w =
     (let key = Key w in
      case q_items q key of
        Some info \<Rightarrow> q\<lparr>q_items := (q_items q)(key \<mapsto> info\<lparr>Obj := w\<rparr>)\<rparr>
      | None \<Rightarrow> q\<lparr>q_items := (q_items q)(key \<mapsto> NewInfo w)\<rparr>)"

subsection \<open>The strict FIFO ordering\<close>

text \<open>
  Modelled from the spec: \<^verbatim>\<open>utilpriority.Priority\<close> (package \<^verbatim>\<open>pkg/util/priority\<close>) is
  not among the sources. The spec lets a workload expose "a numeric priority"; it is
  the \<^verbatim>\<open>int32\<close> priority of the workload's spec.
\<close>

definition Priority :: "QueuedWorkload \<Rightarrow> int32" where
  "Priority w = PriorityValue (Spec w)"

text \<open>\<^verbatim>\<open>metav1.Time.Before\<close> on two non-nil times: strictly earlier.\<close>

definition Before :: "int \<Rightarrow> int \<Rightarrow> bool" where
  "Before t u = (t < u)"

definition strictFIFO :: "Info \<Rightarrow> Info \<Rightarrow> bool" where
  "strictFIFO a b =
     (let p1 = Priority (Obj a); p2 = Priority (Obj b) in
      if p1 \<noteq> p2 then p2 <s p1
      else Before (CreationTimestamp (Obj a)) (CreationTimestamp (Obj b)))"

subsection \<open>heapImpl and its \<^verbatim>\<open>heap.Interface\<close> methods\<close>

text \<open>
  Slice indices are natural numbers. A method that indexes a slice out of range or
  dereferences the nil pointer read from \<^verbatim>\<open>items\<close> panics: the result is \<open>None\<close>.
  Every \<^verbatim>\<open>*heapItem\<close> is allocated by \<^verbatim>\<open>Push\<close> and stored under one key, so \<^verbatim>\<open>items\<close>
  holds the items themselves.
\<close>

record heapItem =
  obj :: Info
  index :: nat

record heapImpl =
  items :: "string \<rightharpoonup> heapItem"
  heap :: "string list"
  less_fn :: "Info \<Rightarrow> Info \<Rightarrow> bool"

definition Len :: "heapImpl \<Rightarrow> nat" where
  "Len h = length (heap h)"

definition Less :: "heapImpl \<Rightarrow> nat \<Rightarrow> nat \<Rightarrow> bool option" where
  "Less h i j =
     (if i < length (heap h) \<and> j < length (heap h) then
        (case items h (heap h ! i) of None \<Rightarrow> None
         | Some a \<Rightarrow>
            (case items h (heap h ! j) of None \<Rightarrow> None
             | Some b \<Rightarrow> Some (less_fn h (obj a) (obj b))))
      else None)"

definition setIndex :: "heapImpl \<Rightarrow> nat \<Rightarrow> heapImpl option" where
  "setIndex h i =
     (if i < length (heap h) then
        (case items h (heap h ! i) of None \<Rightarrow> None
         | Some it \<Rightarrow> Some (h\<lparr>items := (items h)(heap h ! i \<mapsto> it\<lparr>index := i\<rparr>)\<rparr>))
      else None)"

definition Swap :: "heapImpl \<Rightarrow> nat \<Rightarrow> nat \<Rightarrow> heapImpl option" where
  "Swap h i j =
     (if i < length (heap h) \<and> j < length (heap h) then
        (let h1 = h\<lparr>heap := (heap h)[i := heap h ! j, j := heap h ! i]\<rparr> in
         case setIndex h1 i of None \<Rightarrow> None
         | Some h2 \<Rightarrow> setIndex h2 j)
      else None)"

definition heapImpl_Push :: "heapImpl \<Rightarrow> Info \<Rightarrow> heapImpl" where
  "heapImpl_Push h wInfo =
     (let key = Key (Obj wInfo) in
      h\<lparr>items := (items h)(key \<mapsto> \<lparr>obj = wInfo, index = length (heap h)\<rparr>),
        heap := heap h @ [key]\<rparr>)"

definition heapImpl_Pop :: "heapImpl \<Rightarrow> (Info \<times> heapImpl) option" where
  "heapImpl_Pop h =
     (if length (heap h) = 0 then None
      else
        (let key = heap h ! (length (heap h) - 1);
             h1 = h\<lparr>heap := take (length (heap h) - 1) (heap h)\<rparr> in
         case items h1 key of None \<Rightarrow> None
         | Some it \<Rightarrow> Some (obj it, h1\<lparr>items := (items h1)(key := None)\<rparr>)))"

subsection \<open>The functions of \<^verbatim>\<open>container/heap\<close>\<close>

text \<open>
  heapImpl is driven by the functions of the package \<^verbatim>\<open>container/heap\<close> of Go's standard
  library, which are:
  \<^verbatim>\<open>
  func Push(h Interface, x any) { h.Push(x); up(h, h.Len()-1) }
  func Pop(h Interface) any {
      n := h.Len() - 1; h.Swap(0, n); down(h, 0, n); return h.Pop() }
  func Remove(h Interface, i int) any {
      n := h.Len() - 1
      if n != i { h.Swap(i, n); if !down(h, i, n) { up(h, i) } }
      return h.Pop() }
  func Fix(h Interface, i int) { if !down(h, i, h.Len()) { up(h, i) } }
  func up(h Interface, j int) {
      for { i := (j - 1) / 2 // parent
            if i == j || !h.Less(j, i) { break }
            h.Swap(i, j); j = i } }
  func down(h Interface, i0, n int) bool {
      i := i0
      for { j1 := 2*i + 1
            if j1 >= n || j1 < 0 { break } // j1 < 0 after int overflow
            j := j1 // left child
            if j2 := j1 + 1; j2 < n && h.Less(j2, j1) { j = j2 } // right child
            if !h.Less(j, i) { break }
            h.Swap(i, j); i = j }
      return i > i0 }
  \<close>
  \<^verbatim>\<open>up\<close> computes the parent as \<^verbatim>\<open>(j - 1) / 2\<close>, which Go truncates to 0 for \<^verbatim>\<open>j = 0\<close>,
  as the subtraction on natural numbers does. The guard \<^verbatim>\<open>j1 < 0\<close> of \<^verbatim>\<open>down\<close> only
  fires after an overflow of \<^verbatim>\<open>2*i + 1\<close>, which needs a slice of more than \<open>2^62\<close>
  strings; it is left out. \<^verbatim>\<open>fixAt\<close> is the step \<^verbatim>\<open>if !down(h, i, n) { up(h, i) }\<close> that
  \<^verbatim>\<open>Remove\<close> and \<^verbatim>\<open>Fix\<close> share. On an empty slice \<^verbatim>\<open>n\<close> is \<open>-1\<close> in Go, and
  \<^verbatim>\<open>Pop\<close> and \<^verbatim>\<open>Remove\<close> panic in \<^verbatim>\<open>Swap\<close>; here \<open>n\<close> is 0 and they return \<open>None\<close> as
  well, from \<^verbatim>\<open>Swap\<close> or from \<^verbatim>\<open>h.Pop\<close>.
\<close>

function up :: "heapImpl \<Rightarrow> nat \<Rightarrow> heapImpl option" where
  "up h j =
     (let i = (j - 1) div 2 in
      if i = j then Some h
      else
        (case Less h j i of None \<Rightarrow> None
         | Some b \<Rightarrow>
            if \<not> b then Some h
            else (case Swap h i j of None \<Rightarrow> None | Some h' \<Rightarrow> up h' i)))"
  by pat_completeness auto
termination
  by (relation "measure (\<lambda>(h, j). j)") auto

declare up.simps [simp del]

text \<open>The loop of \<^verbatim>\<open>down\<close>; it returns the heap and the final value of \<^verbatim>\<open>i\<close>.\<close>

function down_loop :: "heapImpl \<Rightarrow> nat \<Rightarrow> nat \<Rightarrow> (heapImpl \<times> nat) option" where
  "down_loop h i n =
     (let j1 = 2 * i + 1 in
      if j1 \<ge> n then Some (h, i)
      else
        (case (if j1 + 1 < n then Less h (j1 + 1) j1 else Some False) of None \<Rightarrow> None
         | Some r \<Rightarrow>
            (let j = (if r then j1 + 1 else j1) in
             case Less h j i of None \<Rightarrow> None
             | Some b \<Rightarrow>
                if \<not> b then Some (h, i)
                else (case Swap h i j of None \<Rightarrow> None | Some h' \<Rightarrow> down_loop h' j n))))"
  by pat_completeness auto
termination
  by (relation "measure (\<lambda>(h, i, n). n - i)") auto

declare down_loop.simps [simp del]

definition down :: "heapImpl \<Rightarrow> nat \<Rightarrow> nat \<Rightarrow> (heapImpl \<times> bool) option" where
  "down h i0 n =
     (case down_loop h i0 n of None \<Rightarrow> None | Some (h', i) \<Rightarrow> Some (h', i > i0))"

definition heap_Push :: "heapImpl \<Rightarrow> Info \<Rightarrow> heapImpl option" where
  "heap_Push h x = (let h1 = heapImpl_Push h x in up h1 (Len h1 - 1))"

definition heap_Pop :: "heapImpl \<Rightarrow> (Info \<times> heapImpl) option" where
  "heap_Pop h =
     (let n = Len h - 1 in
      case Swap h 0 n of None \<Rightarrow> None
      | Some h1 \<Rightarrow>
         (case down h1 0 n of None \<Rightarrow> None
          | Some (h2, moved) \<Rightarrow> heapImpl_Pop h2))"

definition fixAt :: "heapImpl \<Rightarrow> nat \<Rightarrow> nat \<Rightarrow> heapImpl option" where
  "fixAt h i n =
     (case down h i n of None \<Rightarrow> None
      | Some (h1, moved) \<Rightarrow> if \<not> moved then up h1 i else Some h1)"

definition heap_Remove :: "heapImpl \<Rightarrow> nat \<Rightarrow> (Info \<times> heapImpl) option" where
  "heap_Remove h i =
     (let n = Len h - 1 in
      if n \<noteq> i then
        (case Swap h i n of None \<Rightarrow> None
         | Some h1 \<Rightarrow>
            (case fixAt h1 i n of None \<Rightarrow> None | Some h2 \<Rightarrow> heapImpl_Pop h2))
      else heapImpl_Pop h)"

definition heap_Fix :: "heapImpl \<Rightarrow> nat \<Rightarrow> heapImpl option" where
  "heap_Fix h i = fixAt h i (Len h)"

subsection \<open>ClusterQueue\<close>

type_synonym QueueingStrategy = string

text \<open>The constant \<^verbatim>\<open>kueue.StrictFIFO\<close> of the API package, the only strategy the switch of
  \<^verbatim>\<open>newClusterQueue\<close> knows.\<close>

definition StrictFIFO :: QueueingStrategy where
  "StrictFIFO = ''StrictFIFO''"

text \<open>The API object \<^verbatim>\<open>kueue.ClusterQueue\<close>, reduced to the field that is read.\<close>

record ClusterQueueDef =
  def_QueueingStrategy :: QueueingStrategy

record ClusterQueue =
  cq_QueueingStrategy :: QueueingStrategy
  cq_heap :: heapImpl

datatype error = InvalidQueueingStrategy QueueingStrategy

definition newClusterQueue :: "ClusterQueueDef \<Rightarrow> error + ClusterQueue" where
  "newClusterQueue cq =
     (if def_QueueingStrategy cq = StrictFIFO then
        Inr \<lparr>cq_QueueingStrategy = def_QueueingStrategy cq,
             cq_heap = \<lparr>items = Map.empty, heap = [], less_fn = strictFIFO\<rparr>\<rparr>
      else Inl (InvalidQueueingStrategy (def_QueueingStrategy cq)))"

definition PushIfNotPresent :: "ClusterQueue \<Rightarrow> Info \<Rightarrow> (bool \<times> ClusterQueue) option" where
  "PushIfNotPresent cq info =
     (case items (cq_heap cq) (Key (Obj info)) of
        Some item \<Rightarrow> Some (False, cq)
      | None \<Rightarrow>
         (case heap_Push (cq_heap cq) info of None \<Rightarrow> None
          | Some h \<Rightarrow> Some (True, cq\<lparr>cq_heap := h\<rparr>)))"

definition PushOrUpdate :: "ClusterQueue \<Rightarrow> QueuedWorkload \<Rightarrow> ClusterQueue option" where
  "PushOrUpdate cq w =
     (let info = NewInfo w in
      case items (cq_heap cq) (Key w) of
        None \<Rightarrow>
         (case heap_Push (cq_heap cq) info of None \<Rightarrow> None
          | Some h \<Rightarrow> Some (cq\<lparr>cq_heap := h\<rparr>))
      | Some item \<Rightarrow>
         (let h1 = (cq_heap cq)\<lparr>items := (items (cq_heap cq))(Key w \<mapsto> item\<lparr>obj := info\<rparr>)\<rparr> in
          case heap_Fix h1 (index item) of None \<Rightarrow> None
          | Some h \<Rightarrow> Some (cq\<lparr>cq_heap := h\<rparr>)))"

definition Delete :: "ClusterQueue \<Rightarrow> QueuedWorkload \<Rightarrow> ClusterQueue option" where
  "Delete cq w =
     (case items (cq_heap cq) (Key w) of
        None \<Rightarrow> Some cq
      | Some item \<Rightarrow>
         (case heap_Remove (cq_heap cq) (index item) of None \<Rightarrow> None
          | Some (x, h) \<Rightarrow> Some (cq\<lparr>cq_heap := h\<rparr>)))"

definition Pop :: "ClusterQueue \<Rightarrow> (Info option \<times> ClusterQueue) option" where
  "Pop cq =
     (if Len (cq_heap cq) = 0 then Some (None, cq)
      else
        (case heap_Pop (cq_heap cq) of None \<Rightarrow> None
         | Some (w, h) \<Rightarrow> Some (Some w, cq\<lparr>cq_heap := h\<rparr>)))"

text \<open>
  \<^verbatim>\<open>AddFromQueue\<close> ranges over the Go map \<^verbatim>\<open>q.items\<close> in an order the language does not
  fix. \<^verbatim>\<open>AddFromQueue_loop\<close> is the loop over the infos in the order \<open>ws\<close> they are
  visited in; \<^verbatim>\<open>enumerates\<close> says that a list of key/info pairs is one of the orders the
  map can be visited in.
\<close>

fun AddFromQueue_loop :: "ClusterQueue \<Rightarrow> bool \<Rightarrow> Info list \<Rightarrow> (bool \<times> ClusterQueue) option" where
  "AddFromQueue_loop cq added [] = Some (added, cq)"
| "AddFromQueue_loop cq added (w # ws) =
     (case PushIfNotPresent cq w of None \<Rightarrow> None
      | Some (b, cq') \<Rightarrow> AddFromQueue_loop cq' (if b then True else added) ws)"

definition enumerates :: "(string \<times> Info) list \<Rightarrow> (string \<rightharpoonup> Info) \<Rightarrow> bool" where
  "enumerates kvs m = (distinct (map fst kvs) \<and> map_of kvs = m)"

definition AddFromQueue :: "ClusterQueue \<Rightarrow> (string \<times> Info) list \<Rightarrow> (bool \<times> ClusterQueue) option" where
  "AddFromQueue cq kvs = AddFromQueue_loop cq False (map snd kvs)"

fun DeleteFromQueue_loop :: "ClusterQueue \<Rightarrow> Info list \<Rightarrow> ClusterQueue option" where
  "DeleteFromQueue_loop cq [] = Some cq"
| "DeleteFromQueue_loop cq (w # ws) =
     (case Delete cq (Obj w) of None \<Rightarrow> None
      | Some cq' \<Rightarrow> DeleteFromQueue_loop cq' ws)"

section \<open>Properties: orderings, the heap invariant, well-formed indices\<close>

text \<open>
  What sifting needs of a comparator: it is asymmetric, and "does not sort
  after" is transitive.
\<close>

definition weak_order :: "('a \<Rightarrow> 'a \<Rightarrow> bool) \<Rightarrow> bool" where
  "weak_order lt =
     ((\<forall>a b. lt a b \<longrightarrow> \<not> lt b a) \<and> (\<forall>a b c. \<not> lt b a \<longrightarrow> \<not> lt c b \<longrightarrow> \<not> lt c a))"

text \<open>Position \<open>k\<close> does not sort before its parent \<open>(k - 1) div 2\<close>.\<close>

definition ok_at :: "('a \<Rightarrow> 'a \<Rightarrow> bool) \<Rightarrow> 'a list \<Rightarrow> nat \<Rightarrow> bool" where
  "ok_at lt xs k = (\<not> lt (xs ! k) (xs ! ((k - 1) div 2)))"

definition heap_upto :: "('a \<Rightarrow> 'a \<Rightarrow> bool) \<Rightarrow> 'a list \<Rightarrow> nat \<Rightarrow> bool" where
  "heap_upto lt xs n = (\<forall>k<n. 0 < k \<longrightarrow> ok_at lt xs k)"

definition heap_ordered :: "('a \<Rightarrow> 'a \<Rightarrow> bool) \<Rightarrow> 'a list \<Rightarrow> bool" where
  "heap_ordered lt xs = heap_upto lt xs (length xs)"

text \<open>
  The heap order of the first \<open>n\<close> positions with position \<open>i\<close> taken out: every pair
  that does not involve \<open>i\<close> is in order, and the children of \<open>i\<close> do not sort before
  the parent of \<open>i\<close>.
\<close>

definition fix_inv :: "('a \<Rightarrow> 'a \<Rightarrow> bool) \<Rightarrow> 'a list \<Rightarrow> nat \<Rightarrow> nat \<Rightarrow> bool" where
  "fix_inv lt xs i n =
     ((\<forall>k<n. 0 < k \<longrightarrow> k \<noteq> i \<longrightarrow> (k - 1) div 2 \<noteq> i \<longrightarrow> ok_at lt xs k) \<and>
      (\<forall>c<n. 0 < c \<longrightarrow> 0 < i \<longrightarrow> (c - 1) div 2 = i \<longrightarrow> \<not> lt (xs ! c) (xs ! ((i - 1) div 2))))"

definition children_ok :: "('a \<Rightarrow> 'a \<Rightarrow> bool) \<Rightarrow> 'a list \<Rightarrow> nat \<Rightarrow> nat \<Rightarrow> bool" where
  "children_ok lt xs i n = (\<forall>c<n. 0 < c \<longrightarrow> (c - 1) div 2 = i \<longrightarrow> ok_at lt xs c)"

text \<open>The infos of a heapImpl in the order of its backing slice, and the info of a key.\<close>

definition objs :: "heapImpl \<Rightarrow> (string \<rightharpoonup> Info)" where
  "objs h = (\<lambda>k. map_option obj (items h k))"

definition vals :: "heapImpl \<Rightarrow> Info list" where
  "vals h = map (\<lambda>k. the (objs h k)) (heap h)"

text \<open>
  The index bookkeeping of a heapImpl: the slice holds every key of the map once, and
  the item of the key at position \<open>i\<close> records the index \<open>i\<close> and holds an info of that
  key.
\<close>

definition heapImpl_inv :: "heapImpl \<Rightarrow> bool" where
  "heapImpl_inv h =
     (distinct (heap h) \<and> dom (items h) = set (heap h) \<and>
      (\<forall>i<length (heap h). \<forall>it. items h (heap h ! i) = Some it \<longrightarrow>
          index it = i \<and> Key (Obj (obj it)) = heap h ! i))"

text \<open>\<open>h'\<close> holds the infos of \<open>h\<close> under the same keys, the first \<open>n\<close> positions of the
  slice rearranged.\<close>

definition reorders :: "heapImpl \<Rightarrow> heapImpl \<Rightarrow> nat \<Rightarrow> bool" where
  "reorders h h' n =
     (heapImpl_inv h' \<and> less_fn h' = less_fn h \<and> objs h' = objs h \<and>
      length (heap h') = length (heap h) \<and> mset (heap h') = mset (heap h) \<and>
      (\<forall>k\<ge>n. heap h' ! k = heap h ! k))"

text \<open>
  The heap ordering invariant of the backing slice, asked of the heap's own \<^verbatim>\<open>Less\<close>:
  no position after the root sorts before its parent \<open>(i - 1) div 2\<close>.
\<close>

definition heap_invariant :: "ClusterQueue \<Rightarrow> bool" where
  "heap_invariant cq =
     (\<forall>i<Len (cq_heap cq). 0 < i \<longrightarrow> Less (cq_heap cq) i ((i - 1) div 2) = Some False)"

text \<open>The invariant of a ClusterQueue: the comparator is the strict FIFO ordering, the
  index is well formed and the infos are heap ordered.\<close>

definition cq_inv :: "ClusterQueue \<Rightarrow> bool" where
  "cq_inv cq =
     (less_fn (cq_heap cq) = strictFIFO \<and> heapImpl_inv (cq_heap cq) \<and>
      heap_ordered (less_fn (cq_heap cq)) (vals (cq_heap cq)))"

text \<open>Every info of a Queue is stored under the key of its workload.\<close>

definition queue_inv :: "Queue \<Rightarrow> bool" where
  "queue_inv q = (\<forall>k info. q_items q k = Some info \<longrightarrow> Key (Obj info) = k)"

text \<open>The operations of a ClusterQueue, and a sequence of them run from a state. The
  bulk operations carry the infos of the queue in the order they are visited.\<close>

datatype operation =
    OpPushIfNotPresent Info
  | OpPushOrUpdate QueuedWorkload
  | OpDelete QueuedWorkload
  | OpPop
  | OpAddFromQueue "Info list"
  | OpDeleteFromQueue "Info list"

fun apply_op :: "ClusterQueue \<Rightarrow> operation \<Rightarrow> ClusterQueue option" where
  "apply_op cq (OpPushIfNotPresent info) = map_option snd (PushIfNotPresent cq info)"
| "apply_op cq (OpPushOrUpdate w) = PushOrUpdate cq w"
| "apply_op cq (OpDelete w) = Delete cq w"
| "apply_op cq OpPop = map_option snd (Pop cq)"
| "apply_op cq (OpAddFromQueue ws) = map_option snd (AddFromQueue_loop cq False ws)"
| "apply_op cq (OpDeleteFromQueue ws) = DeleteFromQueue_loop cq ws"

fun run :: "ClusterQueue \<Rightarrow> operation list \<Rightarrow> ClusterQueue option" where
  "run cq [] = Some cq"
| "run cq (x # xs) = (case apply_op cq x of None \<Rightarrow> None | Some cq' \<Rightarrow> run cq' xs)"

text \<open>The keys of the infos of a queue that a ClusterQueue does not hold.\<close>

definition new_keys :: "ClusterQueue \<Rightarrow> Queue \<Rightarrow> string set" where
  "new_keys cq q =
     {k. \<exists>info\<in>ran (q_items q). k = Key (Obj info) \<and> items (cq_heap cq) k = None}"

section \<open>The demand of a pod group over the integers\<close>

text \<open>
  The computation of a pod group's demand for one resource with unbounded integers in
  place of \<^verbatim>\<open>int64\<close>: the sum over the regular containers, the maximum against that
  running total for each init container that requests the resource, plus the pod
  overhead, times the replica count.
\<close>

definition req_value :: "ResourceName \<Rightarrow> ResourceList \<Rightarrow> int" where
  "req_value name rl = (case rl name of None \<Rightarrow> 0 | Some q \<Rightarrow> sint (ResourceValue name q))"

definition exact_container_sum :: "ResourceName \<Rightarrow> Container list \<Rightarrow> int" where
  "exact_container_sum name cs = sum_list (map (\<lambda>c. req_value name (c_Requests c)) cs)"

fun exact_init_merge :: "ResourceName \<Rightarrow> Container list \<Rightarrow> int \<Rightarrow> int" where
  "exact_init_merge name [] acc = acc"
| "exact_init_merge name (c # cs) acc =
     exact_init_merge name cs
       (case c_Requests c name of None \<Rightarrow> acc
        | Some q \<Rightarrow> max acc (sint (ResourceValue name q)))"

definition exact_pod_demand :: "ResourceName \<Rightarrow> PodSpec \<Rightarrow> int" where
  "exact_pod_demand name spec =
     exact_init_merge name (InitContainers spec) (exact_container_sum name (Containers spec))
       + req_value name (Overhead spec)"

definition exact_total_demand :: "ResourceName \<Rightarrow> PodSet \<Rightarrow> int" where
  "exact_total_demand name ps = exact_pod_demand name (ps_Spec ps) * sint (ps_Count ps)"

text \<open>
  No step of that computation leaves the range of \<^verbatim>\<open>int64\<close>: none of the running sums
  over the containers, not the demand per pod, not the scaled demand. (A maximum of two
  values in range is in range.)
\<close>

definition in_range :: "int \<Rightarrow> bool" where
  "in_range x = (- (2 ^ 63) \<le> x \<and> x < 2 ^ 63)"

fun sums_in_range :: "ResourceName \<Rightarrow> Container list \<Rightarrow> int \<Rightarrow> bool" where
  "sums_in_range name [] acc = True"
| "sums_in_range name (c # cs) acc =
     (in_range (acc + req_value name (c_Requests c)) \<and>
      sums_in_range name cs (acc + req_value name (c_Requests c)))"

definition no_overflow :: "ResourceName \<Rightarrow> PodSet \<Rightarrow> bool" where
  "no_overflow name ps =
     (sums_in_range name (Containers (ps_Spec ps)) 0 \<and>
      in_range (exact_pod_demand name (ps_Spec ps)) \<and>
      in_range (exact_total_demand name ps))"

section \<open>Concrete inputs\<close>

text \<open>A container that requests the given thousandths of a CPU (\<^verbatim>\<open>Value()\<close> rounds up).\<close>

definition cpu_container :: "int64 \<Rightarrow> int64 \<Rightarrow> Container" where
  "cpu_container m v = \<lparr>c_Requests = [ResourceCPU \<mapsto> \<lparr>MilliValue = m, Value = v\<rparr>]\<rparr>"

text \<open>Containers of 100m and 200m CPU, an init container of 500m, an overhead of 50m, two
  replicas.\<close>

definition aggregation_podset :: PodSet where
  "aggregation_podset =
     \<lparr>ps_Name = ''main'',
      ps_Spec = \<lparr>Containers = [cpu_container 100 1, cpu_container 200 1],
                 InitContainers = [cpu_container 500 1],
                 Overhead = [ResourceCPU \<mapsto> \<lparr>MilliValue = 50, Value = 1\<rparr>]\<rparr>,
      ps_Count = 2\<rparr>"

definition aggregation_spec :: QueuedWorkloadSpec where
  "aggregation_spec =
     \<lparr>PodSets = [aggregation_podset], QueueName = ''queue'', PriorityValue = 0,
      Admission = None\<rparr>"

text \<open>A pod group of two replicas of one container that requests 4Ei (\<open>2^62\<close> bytes) of
  memory.\<close>

definition huge_podset :: PodSet where
  "huge_podset =
     \<lparr>ps_Name = ''main'',
      ps_Spec = \<lparr>Containers = [\<lparr>c_Requests = [''memory'' \<mapsto>
                     \<lparr>MilliValue = 0, Value = 4611686018427387904\<rparr>]\<rparr>],
                 InitContainers = [], Overhead = Map.empty\<rparr>,
      ps_Count = 2\<rparr>"

text \<open>A workload of one pod group with one replica of one container that requests CPU.\<close>

definition cpu_workload :: "string \<Rightarrow> int64 \<Rightarrow> int64 \<Rightarrow> QueuedWorkload" where
  "cpu_workload name m v =
     \<lparr>Namespace = ''ns'', Name = name, CreationTimestamp = 0,
      Spec = \<lparr>PodSets = [\<lparr>ps_Name = ''main'',
                ps_Spec = \<lparr>Containers = [cpu_container m v], InitContainers = [],
                           Overhead = Map.empty\<rparr>,
                ps_Count = 1\<rparr>],
              QueueName = ''queue'', PriorityValue = 0, Admission = None\<rparr>\<rparr>"

text \<open>A workload without pod groups, of a given name, priority and creation time.\<close>

definition workload :: "string \<Rightarrow> int32 \<Rightarrow> int \<Rightarrow> QueuedWorkload" where
  "workload name prio ts =
     \<lparr>Namespace = ''ns'', Name = name, CreationTimestamp = ts,
      Spec = \<lparr>PodSets = [], QueueName = ''queue'', PriorityValue = prio, Admission = None\<rparr>\<rparr>"

definition strict_def :: ClusterQueueDef where
  "strict_def = \<lparr>def_QueueingStrategy = StrictFIFO\<rparr>"

definition empty_cq :: ClusterQueue where
  "empty_cq = \<lparr>cq_QueueingStrategy = StrictFIFO,
               cq_heap = \<lparr>items = Map.empty, heap = [], less_fn = strictFIFO\<rparr>\<rparr>"

definition empty_queue :: Queue where
  "empty_queue = newQueue ''cluster-queue''"

text \<open>The infos of four workloads of priorities 5, 5, 3 and 9, as \<^verbatim>\<open>NewInfo\<close> makes them.\<close>

definition info_a :: Info where "info_a = NewInfo (workload ''a'' 5 1)"
definition info_b :: Info where "info_b = NewInfo (workload ''b'' 5 2)"
definition info_c :: Info where "info_c = NewInfo (workload ''c'' 3 3)"
definition info_d :: Info where "info_d = NewInfo (workload ''d'' 9 4)"

definition push_four :: "operation list" where
  "push_four =
     [OpPushOrUpdate (workload ''a'' 5 1), OpPushOrUpdate (workload ''b'' 5 2),
      OpPushOrUpdate (workload ''c'' 3 3), OpPushOrUpdate (workload ''d'' 9 4)]"

text \<open>Pushes, an update that lowers a priority, a push of a key already present, a
  removal and a pop.\<close>

definition mixed_ops :: "operation list" where
  "mixed_ops =
     [OpPushOrUpdate (workload ''a'' 5 1), OpPushIfNotPresent info_b,
      OpPushOrUpdate (workload ''c'' 3 3), OpPushOrUpdate (workload ''d'' 9 4),
      OpPushOrUpdate (workload ''d'' 1 4), OpPushIfNotPresent info_a,
      OpDelete (workload ''b'' 5 2), OpPop]"

text \<open>A queue of the two workloads \<open>a\<close> and \<open>b\<close>, and the order its map is visited in.\<close>

definition two_items :: "(string \<times> Info) list" where
  "two_items = [(''ns/a'', info_a), (''ns/b'', info_b)]"

definition two_queue :: Queue where
  "two_queue = \<lparr>q_ClusterQueue = ''cluster-queue'', q_items = map_of two_items\<rparr>"

section \<open>The sifting steps on a list\<close>

lemma weak_order_strictFIFO: "weak_order strictFIFO"
  unfolding weak_order_def strictFIFO_def Let_def Before_def word_sless_alt
  by (auto dest: signed_word_eqI)

lemma parent_child: "0 < c \<Longrightarrow> ((c - 1) div 2 = i) = (c = 2 * i + 1 \<or> c = 2 * i + 2)" for c i :: nat
  by arith

lemma parent_less: "0 < c \<Longrightarrow> (c - 1) div 2 < c" for c :: nat
  by arith

lemma up_done:
  assumes "fix_inv lt xs j n" "children_ok lt xs j n" "j = 0 \<or> ok_at lt xs j"
  shows "heap_upto lt xs n"
  using assms unfolding heap_upto_def fix_inv_def children_ok_def by blast

lemma down_done:
  assumes "fix_inv lt xs i n" "0 < i \<longrightarrow> ok_at lt xs i" "children_ok lt xs i n"
  shows "heap_upto lt xs n"
  using assms unfolding heap_upto_def fix_inv_def children_ok_def by blast

lemma weak_order_asym: "weak_order lt \<Longrightarrow> lt a b \<Longrightarrow> \<not> lt b a"
  unfolding weak_order_def by blast

lemma weak_order_irrefl: "weak_order lt \<Longrightarrow> \<not> lt a a"
  unfolding weak_order_def by blast

lemma weak_order_trans: "weak_order lt \<Longrightarrow> \<not> lt b a \<Longrightarrow> \<not> lt c b \<Longrightarrow> \<not> lt c a"
  unfolding weak_order_def by blast

lemma down_step:
  assumes wo: "weak_order lt"
    and inv: "fix_inv lt xs i n"
    and j: "j < n" "n \<le> length xs" "0 < j" "(j - 1) div 2 = i"
    and lt: "lt (xs ! j) (xs ! i)"
    and least: "\<forall>c<n. 0 < c \<longrightarrow> (c - 1) div 2 = i \<longrightarrow> \<not> lt (xs ! c) (xs ! j)"
  shows "fix_inv lt (xs[i := xs ! j, j := xs ! i]) j n \<and> ok_at lt (xs[i := xs ! j, j := xs ! i]) j"
proof -
  let ?ys = "xs[i := xs ! j, j := xs ! i]"
  have ij: "i < j" using j parent_less[of j] by simp
  have len: "i < length xs" "j < length xs" using ij j by auto
  have at_i: "?ys ! i = xs ! j" using ij len by (simp add: nth_list_update)
  have at_j: "?ys ! j = xs ! i" using len by simp
  have other: "\<And>k. k \<noteq> i \<Longrightarrow> k \<noteq> j \<Longrightarrow> ?ys ! k = xs ! k" by simp
  have first: "ok_at lt ?ys k" if k: "k < n" "0 < k" "k \<noteq> j" "(k - 1) div 2 \<noteq> j" for k
  proof (cases "k = i")
    case True
    then have "0 < i" using k by simp
    have pi: "(i - 1) div 2 < i" using \<open>0 < i\<close> parent_less by simp
    then have "?ys ! ((i - 1) div 2) = xs ! ((i - 1) div 2)" using ij by (intro other) auto
    moreover have "\<not> lt (xs ! j) (xs ! ((i - 1) div 2))"
      using inv j \<open>0 < i\<close> unfolding fix_inv_def by blast
    ultimately show ?thesis using True at_i by (simp add: ok_at_def)
  next
    case ki: False
    show ?thesis
    proof (cases "(k - 1) div 2 = i")
      case True
      then have "\<not> lt (xs ! k) (xs ! j)" using least k by blast
      then show ?thesis using True at_i other[OF ki \<open>k \<noteq> j\<close>] by (simp add: ok_at_def)
    next
      case False
      then have "ok_at lt xs k" using inv k ki unfolding fix_inv_def by blast
      moreover have "?ys ! ((k - 1) div 2) = xs ! ((k - 1) div 2)" using False k by (intro other) auto
      ultimately show ?thesis using other[OF ki \<open>k \<noteq> j\<close>] by (simp add: ok_at_def)
    qed
  qed
  have second: "\<not> lt (?ys ! c) (?ys ! ((j - 1) div 2))" if c: "c < n" "0 < c" "(c - 1) div 2 = j" for c
  proof -
    have "j < c" using c parent_less[of c] by simp
    then have ne: "c \<noteq> i" "c \<noteq> j" using ij by auto
    have "(c - 1) div 2 \<noteq> i" using c ij by simp
    then have "ok_at lt xs c" using inv c ne unfolding fix_inv_def by blast
    then show ?thesis using c j at_i other[OF ne] by (simp add: ok_at_def)
  qed
  have third: "ok_at lt ?ys j"
    using at_i at_j j weak_order_asym[OF wo lt] by (simp add: ok_at_def)
  show ?thesis unfolding fix_inv_def using first second third by blast
qed

lemma up_step:
  assumes wo: "weak_order lt"
    and inv: "fix_inv lt xs j n" "children_ok lt xs j n"
    and j: "j < n" "n \<le> length xs" "0 < j"
    and lt: "lt (xs ! j) (xs ! ((j - 1) div 2))"
  shows "fix_inv lt (xs[(j - 1) div 2 := xs ! j, j := xs ! ((j - 1) div 2)]) ((j - 1) div 2) n \<and>
         children_ok lt (xs[(j - 1) div 2 := xs ! j, j := xs ! ((j - 1) div 2)]) ((j - 1) div 2) n"
proof -
  define p where "p = (j - 1) div 2"
  let ?ys = "xs[p := xs ! j, j := xs ! p]"
  have pj: "p < j" using j parent_less[of j] by (simp add: p_def)
  have len: "p < length xs" "j < length xs" using pj j by auto
  have at_p: "?ys ! p = xs ! j" using pj len by (simp add: nth_list_update)
  have at_j: "?ys ! j = xs ! p" using len by simp
  have other: "\<And>k. k \<noteq> p \<Longrightarrow> k \<noteq> j \<Longrightarrow> ?ys ! k = xs ! k" by simp
  have ok_sib: "ok_at lt xs s" if "s < n" "0 < s" "(s - 1) div 2 = p" "s \<noteq> j" for s
  proof -
    have "(s - 1) div 2 \<noteq> j" using that pj by simp
    then show ?thesis using inv(1) that unfolding fix_inv_def by blast
  qed
  have first: "ok_at lt ?ys k" if k: "k < n" "0 < k" "k \<noteq> p" "(k - 1) div 2 \<noteq> p" for k
  proof -
    have kj: "k \<noteq> j" using k p_def by auto
    show ?thesis
    proof (cases "(k - 1) div 2 = j")
      case True
      then have "\<not> lt (xs ! k) (xs ! p)" using inv(1) k j unfolding fix_inv_def p_def by blast
      then show ?thesis using True at_j other[OF \<open>k \<noteq> p\<close> kj] by (simp add: ok_at_def)
    next
      case False
      then have "ok_at lt xs k" using inv(1) k kj unfolding fix_inv_def by blast
      moreover have "?ys ! ((k - 1) div 2) = xs ! ((k - 1) div 2)" using False k by (intro other) auto
      ultimately show ?thesis using other[OF \<open>k \<noteq> p\<close> kj] by (simp add: ok_at_def)
    qed
  qed
  have second: "\<not> lt (?ys ! c) (?ys ! ((p - 1) div 2))" if c: "c < n" "0 < c" "0 < p" "(c - 1) div 2 = p" for c
  proof -
    have gp: "(p - 1) div 2 < p" using c parent_less[of p] by simp
    then have g: "?ys ! ((p - 1) div 2) = xs ! ((p - 1) div 2)" using pj by (intro other) auto
    have "p < n" using pj j by simp
    moreover have "p \<noteq> j" "(p - 1) div 2 \<noteq> j" using gp pj by auto
    ultimately have okp: "ok_at lt xs p" using inv(1) c unfolding fix_inv_def by blast
    show ?thesis
    proof (cases "c = j")
      case True
      then show ?thesis using okp g at_j by (simp add: ok_at_def)
    next
      case False
      have "c \<noteq> p" using c parent_less[of c] by auto
      have "ok_at lt xs c" using ok_sib c False by blast
      then have "\<not> lt (xs ! c) (xs ! p)" using c by (simp add: ok_at_def)
      moreover have "\<not> lt (xs ! p) (xs ! ((p - 1) div 2))" using okp by (simp add: ok_at_def)
      ultimately have "\<not> lt (xs ! c) (xs ! ((p - 1) div 2))"
        using weak_order_trans[OF wo] by blast
      then show ?thesis using g other[OF \<open>c \<noteq> p\<close> False] by simp
    qed
  qed
  have third: "ok_at lt ?ys c" if c: "c < n" "0 < c" "(c - 1) div 2 = p" for c
  proof (cases "c = j")
    case True
    then show ?thesis using at_p at_j c weak_order_asym[OF wo lt] by (simp add: ok_at_def p_def)
  next
    case False
    have "c \<noteq> p" using c parent_less[of c] by auto
    have "ok_at lt xs c" using ok_sib c False by blast
    then have "\<not> lt (xs ! c) (xs ! p)" using c by (simp add: ok_at_def)
    moreover have "\<not> lt (xs ! p) (xs ! j)" using weak_order_asym[OF wo lt] by (simp add: p_def)
    ultimately have "\<not> lt (xs ! c) (xs ! j)"
      using weak_order_trans[OF wo] by blast
    then show ?thesis using c at_p other[OF \<open>c \<noteq> p\<close> False] by (simp add: ok_at_def)
  qed
  show ?thesis unfolding fix_inv_def children_ok_def p_def[symmetric] using first second third by blast
qed

lemma root_least:
  assumes wo: "weak_order lt" and h: "heap_upto lt xs n"
  shows "i < n \<Longrightarrow> \<not> lt (xs ! i) (xs ! 0)"
proof (induction i rule: less_induct)
  case (less i)
  show ?case
  proof (cases "i = 0")
    case True
    then show ?thesis using weak_order_irrefl[OF wo] by simp
  next
    case False
    then have p: "(i - 1) div 2 < i" using parent_less by simp
    then have "\<not> lt (xs ! ((i - 1) div 2)) (xs ! 0)" using less by simp
    moreover have "\<not> lt (xs ! i) (xs ! ((i - 1) div 2))"
      using h less.prems False unfolding heap_upto_def ok_at_def by simp
    ultimately show ?thesis using weak_order_trans[OF wo] by blast
  qed
qed

section \<open>The index bookkeeping of heapImpl\<close>

lemma objs_Some: "objs h k = Some x \<longleftrightarrow> (\<exists>it. items h k = Some it \<and> obj it = x)"
  by (auto simp: objs_def)

lemma dom_objs: "dom (objs h) = dom (items h)"
  by (auto simp: objs_def dom_def)

lemma vals_length [simp]: "length (vals h) = length (heap h)"
  by (simp add: vals_def)

lemma vals_nth: "i < length (heap h) \<Longrightarrow> vals h ! i = the (objs h (heap h ! i))"
  by (simp add: vals_def)

lemma inv_lookup:
  assumes "heapImpl_inv h" "i < length (heap h)"
  obtains it where "items h (heap h ! i) = Some it" "index it = i" "Key (Obj (obj it)) = heap h ! i"
proof -
  have "heap h ! i \<in> dom (items h)" using assms unfolding heapImpl_inv_def by simp
  then obtain it where "items h (heap h ! i) = Some it" by blast
  then show ?thesis using assms that unfolding heapImpl_inv_def by blast
qed

lemma Less_correct:
  assumes "heapImpl_inv h" "i < length (heap h)" "j < length (heap h)"
  shows "Less h i j = Some (less_fn h (vals h ! i) (vals h ! j))"
proof -
  obtain a where a: "items h (heap h ! i) = Some a" using assms(1,2) by (rule inv_lookup)
  obtain b where b: "items h (heap h ! j) = Some b" using assms(1,3) by (rule inv_lookup)
  show ?thesis using assms a b by (simp add: Less_def vals_nth objs_def)
qed


lemma setIndex_Some:
  assumes "i < length (heap h)" "items h (heap h ! i) = Some it"
  shows "setIndex h i = Some (h\<lparr>items := (items h)(heap h ! i \<mapsto> it\<lparr>index := i\<rparr>)\<rparr>)"
  using assms by (simp add: setIndex_def)

lemma Swap_correct:
  assumes inv: "heapImpl_inv h" and i: "i < length (heap h)" and j: "j < length (heap h)"
  obtains h' where "Swap h i j = Some h'" "heapImpl_inv h'" "less_fn h' = less_fn h"
    "objs h' = objs h" "heap h' = (heap h)[i := heap h ! j, j := heap h ! i]"
proof -
  let ?ks = "heap h"
  let ?ks' = "?ks[i := ?ks ! j, j := ?ks ! i]"
  obtain iti where iti: "items h (?ks ! i) = Some iti" "Key (Obj (obj iti)) = ?ks ! i"
    using inv i by (rule inv_lookup)
  obtain itj where itj: "items h (?ks ! j) = Some itj" "Key (Obj (obj itj)) = ?ks ! j"
    using inv j by (rule inv_lookup)
  have dist: "distinct ?ks" using inv by (simp add: heapImpl_inv_def)
  have at_i: "?ks' ! i = ?ks ! j" using i j by (cases "i = j") simp_all
  have at_j: "?ks' ! j = ?ks ! i" using i j by simp
  define itm1 where "itm1 = (items h)(?ks ! j \<mapsto> itj\<lparr>index := i\<rparr>)"
  define it2 where "it2 = (if i = j then itj\<lparr>index := i\<rparr> else iti)"
  define itm2 where "itm2 = itm1(?ks ! i \<mapsto> it2\<lparr>index := j\<rparr>)"
  define h' where "h' = h\<lparr>heap := ?ks', items := itm2\<rparr>"
  have keys_eq: "?ks ! i = ?ks ! j \<longleftrightarrow> i = j"
    using dist i j by (simp add: nth_eq_iff_index_eq)
  have it2: "itm1 (?ks ! i) = Some it2"
    using iti keys_eq by (auto simp: itm1_def it2_def)
  have sw: "Swap h i j = Some h'"
    using i j itj it2 at_i at_j
    by (simp add: Swap_def Let_def setIndex_def itm1_def itm2_def h'_def)
  have obj2: "obj it2 = obj iti" using iti itj by (auto simp: it2_def)
  have objs: "objs h' = objs h"
  proof
    fix k show "objs h' k = objs h k"
      using iti itj obj2 by (auto simp: objs_def h'_def itm2_def itm1_def)
  qed
  have dom: "dom itm2 = dom (items h)"
    using iti itj by (auto simp: itm2_def itm1_def)
  have set_eq: "set ?ks' = set ?ks" using i j by simp
  have dist': "distinct ?ks'" using dist i j by simp
  have idx: "index it = k \<and> Key (Obj (obj it)) = ?ks' ! k"
    if k: "k < length ?ks'" and it: "itm2 (?ks' ! k) = Some it" for k it
  proof (cases "k = j")
    case True
    then have "it = it2\<lparr>index := j\<rparr>" using it at_j by (simp add: itm2_def)
    then show ?thesis using True at_j iti obj2 by simp
  next
    case kj: False
    show ?thesis
    proof (cases "k = i")
      case True
      then have "?ks ! j \<noteq> ?ks ! i" using kj keys_eq by auto
      then show ?thesis using True it at_i itj by (auto simp: itm2_def itm1_def)
    next
      case False
      then have kk: "?ks' ! k = ?ks ! k" using kj by simp
      have "?ks ! k \<noteq> ?ks ! i" "?ks ! k \<noteq> ?ks ! j"
        using dist i j k False kj by (simp_all add: nth_eq_iff_index_eq)
      then have "items h (?ks ! k) = Some it" using it kk by (simp add: itm2_def itm1_def)
      then show ?thesis using inv k kk unfolding heapImpl_inv_def by simp
    qed
  qed
  have inv': "heapImpl_inv h'"
    unfolding heapImpl_inv_def using dist' dom set_eq idx inv
    by (simp add: h'_def heapImpl_inv_def)
  show ?thesis
    using that[OF sw inv' _ objs] by (simp add: h'_def)
qed

lemma vals_swap:
  assumes "objs h' = objs h" "heap h' = (heap h)[i := heap h ! j, j := heap h ! i]"
    "i < length (heap h)" "j < length (heap h)"
  shows "vals h' = (vals h)[i := vals h ! j, j := vals h ! i]"
  using assms by (simp add: vals_def map_update)

lemma reorders_refl: "heapImpl_inv h \<Longrightarrow> reorders h h n"
  by (simp add: reorders_def)

lemma reorders_trans: "reorders h1 h2 n \<Longrightarrow> reorders h2 h3 m \<Longrightarrow> n \<le> k \<Longrightarrow> m \<le> k \<Longrightarrow> reorders h1 h3 k"
  by (simp add: reorders_def)

lemma Swap_reorders:
  assumes inv: "heapImpl_inv h" and i: "i < length (heap h)" and j: "j < length (heap h)"
    and n: "i < n" "j < n"
  obtains h' where "Swap h i j = Some h'" "reorders h h' n"
    "vals h' = (vals h)[i := vals h ! j, j := vals h ! i]"
proof -
  obtain h' where h': "Swap h i j = Some h'" "heapImpl_inv h'" "less_fn h' = less_fn h"
    "objs h' = objs h" "heap h' = (heap h)[i := heap h ! j, j := heap h ! i]"
    using inv i j by (rule Swap_correct)
  have "mset (heap h') = mset (heap h)" using h'(5) i j by (simp add: mset_swap)
  then have "reorders h h' n" using h' n by (simp add: reorders_def)
  then show ?thesis using that h' vals_swap[OF h'(4,5) i j] by blast
qed

section \<open>Sifting up and down\<close>

lemma reorders_inv: "reorders h h' n \<Longrightarrow> heapImpl_inv h'"
  by (simp add: reorders_def)

lemma reorders_less: "reorders h h' n \<Longrightarrow> less_fn h' = less_fn h"
  by (simp add: reorders_def)

lemma reorders_length: "reorders h h' n \<Longrightarrow> length (heap h') = length (heap h)"
  by (simp add: reorders_def)

lemma reorders_mono: "reorders h h' n \<Longrightarrow> n \<le> m \<Longrightarrow> reorders h h' m"
  by (simp add: reorders_def)

lemma up_stop0: "up h 0 = Some h"
  by (subst up.simps) simp

lemma up_stop: "0 < j \<Longrightarrow> Less h j ((j - 1) div 2) = Some False \<Longrightarrow> up h j = Some h"
  by (subst up.simps) (auto simp: Let_def)

lemma up_go:
  "0 < j \<Longrightarrow> Less h j ((j - 1) div 2) = Some True \<Longrightarrow> Swap h ((j - 1) div 2) j = Some h' \<Longrightarrow>
   up h j = up h' ((j - 1) div 2)"
  by (subst up.simps) (auto simp: Let_def)

lemma down_stop0: "n \<le> 2 * i + 1 \<Longrightarrow> down_loop h i n = Some (h, i)"
  by (subst down_loop.simps) simp

lemma down_stop:
  "2 * i + 1 < n \<Longrightarrow> (if 2 * i + 1 + 1 < n then Less h (2 * i + 1 + 1) (2 * i + 1) else Some False) = Some r \<Longrightarrow>
   Less h (if r then 2 * i + 1 + 1 else 2 * i + 1) i = Some False \<Longrightarrow> down_loop h i n = Some (h, i)"
  by (subst down_loop.simps) (auto simp: Let_def split: if_splits)

lemma down_go:
  "2 * i + 1 < n \<Longrightarrow> (if 2 * i + 1 + 1 < n then Less h (2 * i + 1 + 1) (2 * i + 1) else Some False) = Some r \<Longrightarrow>
   Less h (if r then 2 * i + 1 + 1 else 2 * i + 1) i = Some True \<Longrightarrow>
   Swap h i (if r then 2 * i + 1 + 1 else 2 * i + 1) = Some h' \<Longrightarrow>
   down_loop h i n = down_loop h' (if r then 2 * i + 1 + 1 else 2 * i + 1) n"
  by (subst down_loop.simps) (auto simp: Let_def split: if_splits)

lemma up_correct:
  "weak_order (less_fn h) \<Longrightarrow> heapImpl_inv h \<Longrightarrow> j < n \<Longrightarrow> n \<le> length (heap h) \<Longrightarrow>
   fix_inv (less_fn h) (vals h) j n \<Longrightarrow> children_ok (less_fn h) (vals h) j n \<Longrightarrow>
   \<exists>h'. up h j = Some h' \<and> reorders h h' (Suc j) \<and> heap_upto (less_fn h) (vals h') n"
proof (induction h j rule: up.induct)
  case (1 h j)
  let ?p = "(j - 1) div 2"
  let ?lt = "less_fn h"
  show ?case
  proof (cases "?p = j")
    case True
    then have j0: "j = 0" by arith
    have "up h j = Some h" using j0 up_stop0 by simp
    moreover have "heap_upto ?lt (vals h) n"
      using up_done[OF "1.prems"(5,6)] j0 by simp
    ultimately show ?thesis using reorders_refl[OF "1.prems"(2)] by simp
  next
    case False
    then have jpos: "0 < j" by arith
    then have pj: "?p < j" by arith
    have len: "j < length (heap h)" "?p < length (heap h)" using "1.prems" pj by auto
    have L: "Less h j ?p = Some (?lt (vals h ! j) (vals h ! ?p))"
      using Less_correct[OF "1.prems"(2) len] .
    show ?thesis
    proof (cases "?lt (vals h ! j) (vals h ! ?p)")
      case nlt: False
      have "up h j = Some h" using up_stop[OF jpos] L nlt by simp
      moreover have "heap_upto ?lt (vals h) n"
        using up_done[OF "1.prems"(5,6)] nlt by (simp add: ok_at_def)
      ultimately show ?thesis using reorders_refl[OF "1.prems"(2)] by simp
    next
      case lt: True
      obtain h1 where h1: "Swap h ?p j = Some h1" "reorders h h1 (Suc j)"
        "vals h1 = (vals h)[?p := vals h ! j, j := vals h ! ?p]"
        using Swap_reorders[OF "1.prems"(2) len(2,1), of "Suc j"] pj by auto
      have less1: "less_fn h1 = ?lt" using h1(2) by (rule reorders_less)
      have step: "fix_inv ?lt (vals h1) ?p n \<and> children_ok ?lt (vals h1) ?p n"
        unfolding h1(3)
        using up_step[OF "1.prems"(1,5,6) "1.prems"(3) _ jpos lt] "1.prems"(4) by simp
      have "\<exists>h'. up h1 ?p = Some h' \<and> reorders h1 h' (Suc ?p) \<and> heap_upto (less_fn h1) (vals h') n"
      proof (rule "1.IH"[OF refl False L _ h1(1)])
        show "\<not> \<not> ?lt (vals h ! j) (vals h ! ?p)" using lt by simp
        show "weak_order (less_fn h1)" using "1.prems"(1) less1 by simp
        show "heapImpl_inv h1" using h1(2) by (rule reorders_inv)
        show "?p < n" using pj "1.prems"(3) by simp
        show "n \<le> length (heap h1)" using "1.prems"(4) reorders_length[OF h1(2)] by simp
        show "fix_inv (less_fn h1) (vals h1) ?p n" using step less1 by simp
        show "children_ok (less_fn h1) (vals h1) ?p n" using step less1 by simp
      qed
      then obtain h' where h': "up h1 ?p = Some h'" "reorders h1 h' (Suc ?p)"
        "heap_upto ?lt (vals h') n" using less1 by auto
      have "up h j = Some h'" using up_go[OF jpos _ h1(1)] L lt h'(1) by simp
      moreover have "reorders h h' (Suc j)"
        using reorders_trans[OF h1(2) h'(2)] pj by simp
      ultimately show ?thesis using h'(3) by simp
    qed
  qed
qed

lemma children_ok_none: "n \<le> 2 * i + 1 \<Longrightarrow> children_ok lt xs i n"
  unfolding children_ok_def by (auto simp: parent_child)

lemma down_loop_correct:
  "weak_order (less_fn h) \<Longrightarrow> heapImpl_inv h \<Longrightarrow> n \<le> length (heap h) \<Longrightarrow>
   fix_inv (less_fn h) (vals h) i n \<Longrightarrow>
   \<exists>h' i'. down_loop h i n = Some (h', i') \<and> reorders h h' n \<and>
      ((i' = i \<and> h' = h \<and> children_ok (less_fn h) (vals h) i n) \<or>
       (i < i' \<and> heap_upto (less_fn h) (vals h') n))"
proof (induction h i n rule: down_loop.induct)
  case (1 h i n)
  let ?lt = "less_fn h"
  let ?j1 = "2 * i + 1"
  note inv = "1.prems"(2)
  show ?case
  proof (cases "n \<le> ?j1")
    case True
    have "down_loop h i n = Some (h, i)" using True by (rule down_stop0)
    then show ?thesis using reorders_refl[OF inv] children_ok_none[OF True] by simp
  next
    case False
    then have j1: "?j1 < n" by simp
    then have len1: "?j1 < length (heap h)" "i < length (heap h)" using "1.prems"(3) by auto
    define r where "r = (?j1 + 1 < n \<and> ?lt (vals h ! (?j1 + 1)) (vals h ! ?j1))"
    have R: "(if ?j1 + 1 < n then Less h (?j1 + 1) ?j1 else Some False) = Some r"
    proof (cases "?j1 + 1 < n")
      case True
      then have "?j1 + 1 < length (heap h)" using "1.prems"(3) by simp
      then show ?thesis using True Less_correct[OF inv _ len1(1)] by (simp add: r_def)
    next
      case False
      then show ?thesis by (simp add: r_def)
    qed
    define j where "j = (if r then ?j1 + 1 else ?j1)"
    have jn: "j < n" using j1 by (auto simp: j_def r_def)
    then have lenj: "j < length (heap h)" using "1.prems"(3) by simp
    have jpar: "0 < j" "(j - 1) div 2 = i" "i < j" by (auto simp: j_def)
    have L: "Less h j i = Some (?lt (vals h ! j) (vals h ! i))"
      using Less_correct[OF inv lenj len1(2)] .
    have least: "\<forall>c<n. 0 < c \<longrightarrow> (c - 1) div 2 = i \<longrightarrow> \<not> ?lt (vals h ! c) (vals h ! j)"
    proof (intro allI impI)
      fix c assume c: "c < n" "0 < c" "(c - 1) div 2 = i"
      then have "c = ?j1 \<or> c = ?j1 + 1" using parent_child[of c i] by auto
      then show "\<not> ?lt (vals h ! c) (vals h ! j)"
        using c weak_order_irrefl[OF "1.prems"(1)] weak_order_asym[OF "1.prems"(1)]
        by (auto simp: j_def r_def split: if_splits)
    qed
    show ?thesis
    proof (cases "?lt (vals h ! j) (vals h ! i)")
      case nlt: False
      have "down_loop h i n = Some (h, i)"
        using down_stop[OF j1 R] L nlt by (simp add: j_def)
      moreover have "children_ok ?lt (vals h) i n"
        unfolding children_ok_def ok_at_def
      proof (intro allI impI)
        fix c assume c: "c < n" "0 < c" "(c - 1) div 2 = i"
        have "\<not> ?lt (vals h ! c) (vals h ! j)" using least c by blast
        then show "\<not> ?lt (vals h ! c) (vals h ! ((c - 1) div 2))"
          using nlt c weak_order_trans[OF "1.prems"(1)] by blast
      qed
      ultimately show ?thesis using reorders_refl[OF inv] by simp
    next
      case lt: True
      obtain h1 where h1: "Swap h i j = Some h1" "reorders h h1 n"
        "vals h1 = (vals h)[i := vals h ! j, j := vals h ! i]"
        using Swap_reorders[OF inv len1(2) lenj, of n] jpar jn by auto
      have less1: "less_fn h1 = ?lt" using h1(2) by (rule reorders_less)
      have step: "fix_inv ?lt (vals h1) j n \<and> ok_at ?lt (vals h1) j"
        unfolding h1(3)
        using down_step[OF "1.prems"(1,4) jn _ jpar(1,2) lt least] "1.prems"(3) by simp
      have "\<exists>h' i'. down_loop h1 j n = Some (h', i') \<and> reorders h1 h' n \<and>
          ((i' = j \<and> h' = h1 \<and> children_ok (less_fn h1) (vals h1) j n) \<or>
           (j < i' \<and> heap_upto (less_fn h1) (vals h') n))"
      proof (rule "1.IH"[OF refl False R j_def L _ h1(1)])
        show "\<not> \<not> ?lt (vals h ! j) (vals h ! i)" using lt by simp
        show "weak_order (less_fn h1)" using "1.prems"(1) less1 by simp
        show "heapImpl_inv h1" using h1(2) by (rule reorders_inv)
        show "n \<le> length (heap h1)" using "1.prems"(3) reorders_length[OF h1(2)] by simp
        show "fix_inv (less_fn h1) (vals h1) j n" using step less1 by simp
      qed
      then obtain h' i' where h': "down_loop h1 j n = Some (h', i')" "reorders h1 h' n"
        "(i' = j \<and> h' = h1 \<and> children_ok ?lt (vals h1) j n) \<or>
           (j < i' \<and> heap_upto ?lt (vals h') n)" using less1 by auto
      have dl: "down_loop h i n = Some (h', i')"
        using down_go[OF j1 R, of h1] L lt h1(1) h'(1) by (simp add: j_def)
      have ii': "i < i'" using h'(3) jpar(3) by auto
      have "heap_upto ?lt (vals h') n"
      proof (rule disjE[OF h'(3)])
        assume a: "i' = j \<and> h' = h1 \<and> children_ok ?lt (vals h1) j n"
        then show ?thesis using down_done[of ?lt "vals h1" j n] step by simp
      qed simp
      then show ?thesis using dl ii' reorders_trans[OF h1(2) h'(2)] by simp
    qed
  qed
qed

lemma fixAt_correct:
  assumes wo: "weak_order (less_fn h)" and inv: "heapImpl_inv h"
    and i: "i < n" "n \<le> length (heap h)"
    and fi: "fix_inv (less_fn h) (vals h) i n"
  shows "\<exists>h'. fixAt h i n = Some h' \<and> reorders h h' n \<and> heap_upto (less_fn h) (vals h') n"
proof -
  obtain h1 i' where d: "down_loop h i n = Some (h1, i')" "reorders h h1 n"
      "(i' = i \<and> h1 = h \<and> children_ok (less_fn h) (vals h) i n) \<or>
       (i < i' \<and> heap_upto (less_fn h) (vals h1) n)"
    using down_loop_correct[OF wo inv i(2) fi] by blast
  show ?thesis
  proof (rule disjE[OF d(3)])
    assume a: "i' = i \<and> h1 = h \<and> children_ok (less_fn h) (vals h) i n"
    obtain h' where h': "up h i = Some h'" "reorders h h' (Suc i)" "heap_upto (less_fn h) (vals h') n"
      using up_correct[OF wo inv i fi] a by blast
    have "fixAt h i n = Some h'" using d(1) a h'(1) by (simp add: fixAt_def down_def)
    moreover have "reorders h h' n" using reorders_mono[OF h'(2)] i by simp
    ultimately show ?thesis using h'(3) by simp
  next
    assume a: "i < i' \<and> heap_upto (less_fn h) (vals h1) n"
    then have "fixAt h i n = Some h1" using d(1) by (simp add: fixAt_def down_def)
    then show ?thesis using d(2) a by simp
  qed
qed

section \<open>Push and the removal of the last key\<close>

lemma fix_inv_of_heap:
  assumes wo: "weak_order lt" and h: "heap_upto lt xs n"
    and same: "\<forall>k<n. k \<noteq> i \<longrightarrow> ys ! k = xs ! k"
  shows "fix_inv lt ys i n"
  unfolding fix_inv_def
proof (intro conjI allI impI)
  fix k assume k: "k < n" "0 < k" "k \<noteq> i" "(k - 1) div 2 \<noteq> i"
  have "(k - 1) div 2 < n" using k parent_less[of k] by simp
  then have "ys ! ((k - 1) div 2) = xs ! ((k - 1) div 2)" "ys ! k = xs ! k" using same k by auto
  then show "ok_at lt ys k" using h k unfolding heap_upto_def ok_at_def by simp
next
  fix c assume c: "c < n" "0 < c" "0 < i" "(c - 1) div 2 = i"
  have ic: "i < c" using c parent_less[of c] by simp
  have pi: "(i - 1) div 2 < i" using c parent_less[of i] by simp
  have "ys ! c = xs ! c" "ys ! ((i - 1) div 2) = xs ! ((i - 1) div 2)"
    using same c ic pi by auto
  moreover have "\<not> lt (xs ! c) (xs ! i)" using h c unfolding heap_upto_def ok_at_def by auto
  moreover have "\<not> lt (xs ! i) (xs ! ((i - 1) div 2))"
    using h c ic unfolding heap_upto_def ok_at_def by auto
  ultimately show "\<not> lt (ys ! c) (ys ! ((i - 1) div 2))"
    using weak_order_trans[OF wo] by metis
qed

lemma vals_reorders: "reorders h h' n \<Longrightarrow> mset (vals h') = mset (vals h)"
proof -
  assume r: "reorders h h' n"
  have "mset (vals h') = image_mset (\<lambda>k. the (objs h k)) (mset (heap h'))"
    using r by (simp add: vals_def reorders_def)
  also have "\<dots> = mset (vals h)" using r by (simp add: vals_def reorders_def)
  finally show ?thesis .
qed

lemma vals_reorders_nth:
  "reorders h h' n \<Longrightarrow> n \<le> k \<Longrightarrow> k < length (heap h) \<Longrightarrow> vals h' ! k = vals h ! k"
  by (simp add: vals_def reorders_def)

lemma heap_reorders_nth:
  "reorders h h' n \<Longrightarrow> n \<le> k \<Longrightarrow> heap h' ! k = heap h ! k"
  by (simp add: reorders_def)

lemma reorders_objs: "reorders h h' n \<Longrightarrow> objs h' = objs h"
  by (simp add: reorders_def)

lemma reorders_set: "reorders h h' n \<Longrightarrow> set (heap h') = set (heap h)"
  unfolding reorders_def by (metis set_mset_mset)

lemma heapImpl_Push_props:
  assumes inv: "heapImpl_inv h" and new: "Key (Obj x) \<notin> set (heap h)"
  shows "heapImpl_inv (heapImpl_Push h x)"
    and "less_fn (heapImpl_Push h x) = less_fn h"
    and "heap (heapImpl_Push h x) = heap h @ [Key (Obj x)]"
    and "objs (heapImpl_Push h x) = (objs h)(Key (Obj x) \<mapsto> x)"
    and "vals (heapImpl_Push h x) = vals h @ [x]"
proof -
  let ?k = "Key (Obj x)"
  let ?h = "heapImpl_Push h x"
  show hp: "heap ?h = heap h @ [?k]" by (simp add: heapImpl_Push_def Let_def)
  show "less_fn ?h = less_fn h" by (simp add: heapImpl_Push_def Let_def)
  show ob: "objs ?h = (objs h)(?k \<mapsto> x)"
    by (rule ext) (simp add: objs_def heapImpl_Push_def Let_def)
  have it: "items ?h = (items h)(?k \<mapsto> \<lparr>obj = x, index = length (heap h)\<rparr>)"
    by (simp add: heapImpl_Push_def Let_def)
  have idx: "index it = i \<and> Key (Obj (obj it)) = heap ?h ! i"
    if "i < length (heap ?h)" "items ?h (heap ?h ! i) = Some it" for i it
  proof (cases "i < length (heap h)")
    case True
    have "heap h ! i \<in> set (heap h)" using True by simp
    then have "heap h ! i \<noteq> ?k" using new by auto
    moreover have "heap ?h ! i = heap h ! i" using True hp by (simp add: nth_append)
    ultimately have "heap ?h ! i = heap h ! i" "heap h ! i \<noteq> ?k" by simp_all
    then show ?thesis using that True inv it unfolding heapImpl_inv_def by simp
  next
    case False
    then have "i = length (heap h)" using that hp by simp
    then show ?thesis using that it hp by auto
  qed
  show "heapImpl_inv ?h"
    unfolding heapImpl_inv_def using inv new idx
    by (auto simp: hp it heapImpl_inv_def)
  have "map (\<lambda>k. the (objs ?h k)) (heap h) = map (\<lambda>k. the (objs h k)) (heap h)"
    using new ob by (intro map_cong) auto
  then show "vals ?h = vals h @ [x]" using ob by (simp add: vals_def hp)
qed

lemma fix_inv_last:
  assumes "heap_upto lt xs n"
  shows "fix_inv lt xs n (Suc n)" and "children_ok lt xs n (Suc n)"
proof -
  have no_child: "\<not> (c < Suc n \<and> 0 < c \<and> (c - 1) div 2 = n)" for c
    using parent_less[of c] by auto
  show "fix_inv lt xs n (Suc n)"
    unfolding fix_inv_def using assms no_child
    by (auto simp: heap_upto_def less_Suc_eq)
  show "children_ok lt xs n (Suc n)"
    unfolding children_ok_def using no_child by blast
qed

lemma heap_upto_append: "heap_upto lt xs n \<Longrightarrow> n \<le> length xs \<Longrightarrow> heap_upto lt (xs @ ys) n"
  unfolding heap_upto_def ok_at_def
proof (intro allI impI)
  fix k assume a: "\<forall>k<n. 0 < k \<longrightarrow> \<not> lt (xs ! k) (xs ! ((k - 1) div 2))" "n \<le> length xs" "k < n" "0 < k"
  then have "(k - 1) div 2 < length xs" "k < length xs" using parent_less[of k] by auto
  then show "\<not> lt ((xs @ ys) ! k) ((xs @ ys) ! ((k - 1) div 2))" using a by (simp add: nth_append)
qed

lemma heap_upto_take: "heap_upto lt xs n \<Longrightarrow> n \<le> length xs \<Longrightarrow> heap_ordered lt (take n xs)"
  unfolding heap_upto_def ok_at_def heap_ordered_def
proof (intro allI impI)
  fix k assume a: "\<forall>k<n. 0 < k \<longrightarrow> \<not> lt (xs ! k) (xs ! ((k - 1) div 2))" "n \<le> length xs"
     "k < length (take n xs)" "0 < k"
  then have "(k - 1) div 2 < n" "k < n" using parent_less[of k] by auto
  then show "\<not> lt (take n xs ! k) (take n xs ! ((k - 1) div 2))" using a by simp
qed

lemma heap_Push_correct:
  assumes wo: "weak_order (less_fn h)" and inv: "heapImpl_inv h"
    and ho: "heap_ordered (less_fn h) (vals h)" and new: "Key (Obj x) \<notin> set (heap h)"
  shows "\<exists>h'. heap_Push h x = Some h' \<and> heapImpl_inv h' \<and> less_fn h' = less_fn h \<and>
           heap_ordered (less_fn h) (vals h') \<and> objs h' = (objs h)(Key (Obj x) \<mapsto> x) \<and>
           length (heap h') = Suc (length (heap h)) \<and>
           set (heap h') = insert (Key (Obj x)) (set (heap h)) \<and>
           mset (vals h') = add_mset x (mset (vals h))"
proof -
  let ?h1 = "heapImpl_Push h x"
  let ?n = "length (heap h)"
  let ?lt = "less_fn h"
  note p = heapImpl_Push_props[OF inv new]
  have len1: "length (heap ?h1) = Suc ?n" using p(3) by simp
  have "heap_upto ?lt (vals ?h1) ?n"
    using ho heap_upto_append[of ?lt "vals h" ?n "[x]"] p(5) by (simp add: heap_ordered_def)
  then have fi: "fix_inv (less_fn ?h1) (vals ?h1) ?n (Suc ?n)"
      "children_ok (less_fn ?h1) (vals ?h1) ?n (Suc ?n)"
    using fix_inv_last[of ?lt "vals ?h1" ?n] p(2) by simp_all
  have wo1: "weak_order (less_fn ?h1)" using wo p(2) by simp
  obtain h' where h': "up ?h1 ?n = Some h'" "reorders ?h1 h' (Suc ?n)"
      "heap_upto (less_fn ?h1) (vals h') (Suc ?n)"
    using up_correct[OF wo1 p(1) _ _ fi] len1 by auto
  have "heap_Push h x = Some h'" using h'(1) len1 by (simp add: heap_Push_def Len_def Let_def)
  moreover have "heapImpl_inv h'" using h'(2) by (rule reorders_inv)
  moreover have "less_fn h' = ?lt" using reorders_less[OF h'(2)] p(2) by simp
  moreover have len': "length (heap h') = Suc ?n" using reorders_length[OF h'(2)] len1 by simp
  moreover have "heap_ordered ?lt (vals h')" using h'(3) len' p(2) by (simp add: heap_ordered_def)
  moreover have "objs h' = (objs h)(Key (Obj x) \<mapsto> x)" using reorders_objs[OF h'(2)] p(4) by simp
  moreover have "set (heap h') = insert (Key (Obj x)) (set (heap h))"
    using reorders_set[OF h'(2)] p(3) by simp
  moreover have "mset (vals h') = add_mset x (mset (vals h))"
    using vals_reorders[OF h'(2)] p(5) by simp
  ultimately show ?thesis by blast
qed

lemma heapImpl_Pop_correct:
  assumes inv: "heapImpl_inv h" and ne: "heap h \<noteq> []"
  shows "\<exists>h'. heapImpl_Pop h = Some (last (vals h), h') \<and> heapImpl_inv h' \<and>
           less_fn h' = less_fn h \<and> heap h' = butlast (heap h) \<and>
           objs h' = (objs h)(last (heap h) := None) \<and> vals h' = butlast (vals h)"
proof -
  let ?ks = "heap h"
  let ?n = "length ?ks - 1"
  let ?key = "last ?ks"
  have n: "?n < length ?ks" using ne by simp
  have key: "?ks ! ?n = ?key" using ne by (simp add: last_conv_nth)
  obtain it where it: "items h ?key = Some it" using inv_lookup[OF inv n] key by metis
  define h' where "h' = h\<lparr>heap := butlast ?ks, items := (items h)(?key := None)\<rparr>"
  have dist: "distinct ?ks" using inv by (simp add: heapImpl_inv_def)
  have notin: "?key \<notin> set (butlast ?ks)"
    using dist ne by (metis append_butlast_last_id distinct_append disjoint_iff list.set_intros(1))
  have set_bl: "set (butlast ?ks) = set ?ks - {?key}"
    using notin ne by (metis Diff_insert_absorb append_butlast_last_id list.simps(15) set_append
       Un_insert_right sup_bot.right_neutral empty_set)
  have lastv: "last (vals h) = obj it"
    using ne it by (simp add: vals_def last_map objs_def)
  have pop: "heapImpl_Pop h = Some (last (vals h), h')"
    using ne it key lastv by (simp add: heapImpl_Pop_def Let_def h'_def butlast_conv_take)
  have ob: "objs h' = (objs h)(?key := None)"
    by (rule ext) (simp add: objs_def h'_def)
  have idx: "index it' = i \<and> Key (Obj (obj it')) = butlast ?ks ! i"
    if "i < length (butlast ?ks)" "((items h)(?key := None)) (butlast ?ks ! i) = Some it'" for i it'
  proof -
    have i: "i < length ?ks" "butlast ?ks ! i = ?ks ! i" using that by (simp_all add: nth_butlast)
    then have "items h (?ks ! i) = Some it'" using that by (simp split: if_splits)
    then show ?thesis using inv i unfolding heapImpl_inv_def by simp
  qed
  have inv': "heapImpl_inv h'"
    unfolding heapImpl_inv_def using dist set_bl idx inv
    by (auto simp: h'_def heapImpl_inv_def distinct_butlast)
  have "map (\<lambda>k. the (objs h' k)) (butlast ?ks) = map (\<lambda>k. the (objs h k)) (butlast ?ks)"
    using notin ob by (intro map_cong) auto
  then have "vals h' = butlast (vals h)" by (simp add: vals_def h'_def map_butlast)
  then show ?thesis using pop inv' ob by (simp add: h'_def)
qed

section \<open>Pop, Remove and Fix\<close>

lemma inv_set_heap: "heapImpl_inv h \<Longrightarrow> set (heap h) = dom (objs h)"
  by (simp add: heapImpl_inv_def dom_objs)

lemma inv_length_heap: "heapImpl_inv h \<Longrightarrow> length (heap h) = card (dom (objs h))"
  using distinct_card[of "heap h"] by (simp add: heapImpl_inv_def dom_objs)

lemma pop_after_sift:
  assumes inv: "heapImpl_inv h" and i: "i < length (heap h)" and n: "n = length (heap h) - 1"
    and h1: "reorders h h1 (Suc n)" "heap h1 = (heap h)[i := heap h ! n, n := heap h ! i]"
    and h2: "reorders h1 h2 n" "heap_upto (less_fn h) (vals h2) n"
  shows "\<exists>h'. heapImpl_Pop h2 = Some (vals h ! i, h') \<and> heapImpl_inv h' \<and>
           less_fn h' = less_fn h \<and> heap_ordered (less_fn h) (vals h') \<and>
           objs h' = (objs h)(heap h ! i := None) \<and>
           mset (vals h) = add_mset (vals h ! i) (mset (vals h'))"
proof -
  have len: "length (heap h1) = length (heap h)" "length (heap h2) = length (heap h)"
    using reorders_length[OF h1(1)] reorders_length[OF h2(1)] by simp_all
  have nlen: "n < length (heap h)" using i n by simp
  have ne: "heap h2 \<noteq> []" using len i by auto
  have inv2: "heapImpl_inv h2" using h2(1) by (rule reorders_inv)
  have ob2: "objs h2 = objs h" using reorders_objs[OF h1(1)] reorders_objs[OF h2(1)] by simp
  have ls2: "less_fn h2 = less_fn h" using reorders_less[OF h1(1)] reorders_less[OF h2(1)] by simp
  have lastk: "last (heap h2) = heap h ! i"
  proof -
    have "last (heap h2) = heap h2 ! n" using ne len n by (simp add: last_conv_nth)
    also have "\<dots> = heap h1 ! n" using heap_reorders_nth[OF h2(1)] by simp
    also have "\<dots> = heap h ! i" using h1(2) nlen by simp
    finally show ?thesis .
  qed
  have lastv: "last (vals h2) = vals h ! i"
  proof -
    have "last (vals h2) = the (objs h2 (last (heap h2)))" using ne by (simp add: vals_def last_map)
    then show ?thesis using lastk ob2 i by (simp add: vals_nth)
  qed
  obtain h' where h': "heapImpl_Pop h2 = Some (last (vals h2), h')" "heapImpl_inv h'"
      "less_fn h' = less_fn h2" "heap h' = butlast (heap h2)"
      "objs h' = (objs h2)(last (heap h2) := None)" "vals h' = butlast (vals h2)"
    using heapImpl_Pop_correct[OF inv2 ne] by blast
  have "vals h' = take n (vals h2)" using h'(6) len n by (simp add: butlast_conv_take)
  then have ho: "heap_ordered (less_fn h) (vals h')"
    using heap_upto_take[OF h2(2)] len n by simp
  have "vals h2 \<noteq> []" using ne by (simp add: vals_def)
  then have "butlast (vals h2) @ [last (vals h2)] = vals h2" by simp
  moreover have "mset (butlast (vals h2) @ [last (vals h2)]) =
      add_mset (last (vals h2)) (mset (butlast (vals h2)))" by simp
  ultimately have "mset (vals h2) = add_mset (last (vals h2)) (mset (butlast (vals h2)))"
    by simp
  then have ms: "mset (vals h) = add_mset (vals h ! i) (mset (vals h'))"
    using vals_reorders[OF h1(1)] vals_reorders[OF h2(1)] lastv h'(6) by simp
  show ?thesis using h' lastv lastk ob2 ls2 ho ms by simp
qed

lemma Swap_last:
  assumes inv: "heapImpl_inv h" and i: "i < length (heap h)" and n: "n = length (heap h) - 1"
  obtains h1 where "Swap h i n = Some h1" "reorders h h1 (Suc n)"
    "heap h1 = (heap h)[i := heap h ! n, n := heap h ! i]"
    "vals h1 = (vals h)[i := vals h ! n, n := vals h ! i]"
proof -
  have nlen: "n < length (heap h)" using i n by simp
  obtain h1 where h1: "Swap h i n = Some h1" "heapImpl_inv h1" "less_fn h1 = less_fn h"
    "objs h1 = objs h" "heap h1 = (heap h)[i := heap h ! n, n := heap h ! i]"
    using inv i nlen by (rule Swap_correct)
  have "mset (heap h1) = mset (heap h)" using h1(5) i nlen by (simp add: mset_swap)
  moreover have "\<forall>k\<ge>Suc n. heap h1 ! k = heap h ! k" using h1(5) i n by auto
  ultimately have "reorders h h1 (Suc n)" using h1 by (simp add: reorders_def)
  then show ?thesis using that h1 vals_swap[OF h1(4,5) i nlen] by blast
qed

lemma fix_inv_after_swap:
  assumes wo: "weak_order lt" and ho: "heap_ordered lt xs" and n: "n = length xs - 1"
  shows "fix_inv lt (xs[i := xs ! n, n := xs ! i]) i n"
proof (rule fix_inv_of_heap[OF wo, where xs = xs])
  show "heap_upto lt xs n" using ho n by (simp add: heap_ordered_def heap_upto_def)
  show "\<forall>k<n. k \<noteq> i \<longrightarrow> xs[i := xs ! n, n := xs ! i] ! k = xs ! k" by simp
qed

lemma heap_Pop_correct:
  assumes wo: "weak_order (less_fn h)" and inv: "heapImpl_inv h"
    and ho: "heap_ordered (less_fn h) (vals h)" and ne: "heap h \<noteq> []"
  shows "\<exists>h'. heap_Pop h = Some (vals h ! 0, h') \<and> heapImpl_inv h' \<and>
           less_fn h' = less_fn h \<and> heap_ordered (less_fn h) (vals h') \<and>
           objs h' = (objs h)(heap h ! 0 := None) \<and>
           mset (vals h) = add_mset (vals h ! 0) (mset (vals h'))"
proof -
  define n where "n = length (heap h) - 1"
  let ?lt = "less_fn h"
  have i: "0 < length (heap h)" using ne by simp
  obtain h1 where h1: "Swap h 0 n = Some h1" "reorders h h1 (Suc n)"
      "heap h1 = (heap h)[0 := heap h ! n, n := heap h ! 0]"
      "vals h1 = (vals h)[0 := vals h ! n, n := vals h ! 0]"
    using Swap_last[OF inv i n_def] by blast
  have less1: "less_fn h1 = ?lt" using h1(2) by (rule reorders_less)
  have inv1: "heapImpl_inv h1" using h1(2) by (rule reorders_inv)
  have len1: "n \<le> length (heap h1)" using reorders_length[OF h1(2)] n_def by simp
  have fi: "fix_inv (less_fn h1) (vals h1) 0 n"
    unfolding h1(4) less1 using fix_inv_after_swap[OF wo ho, of n 0] n_def by simp
  have wo1: "weak_order (less_fn h1)" using wo less1 by simp
  obtain h2 i' where d: "down_loop h1 0 n = Some (h2, i')" "reorders h1 h2 n"
      "(i' = 0 \<and> h2 = h1 \<and> children_ok (less_fn h1) (vals h1) 0 n) \<or>
       (0 < i' \<and> heap_upto (less_fn h1) (vals h2) n)"
    using down_loop_correct[OF wo1 inv1 len1 fi] by blast
  have up2: "heap_upto ?lt (vals h2) n"
  proof (rule disjE[OF d(3)])
    assume "i' = 0 \<and> h2 = h1 \<and> children_ok (less_fn h1) (vals h1) 0 n"
    then show ?thesis using down_done[OF fi] less1 by simp
  qed (simp add: less1)
  have "heap_Pop h = heapImpl_Pop h2"
    using h1(1) d(1) by (simp add: heap_Pop_def Len_def Let_def down_def n_def)
  then show ?thesis using pop_after_sift[OF inv i n_def h1(2,3) d(2) up2] by simp
qed

lemma heap_Remove_correct:
  assumes wo: "weak_order (less_fn h)" and inv: "heapImpl_inv h"
    and ho: "heap_ordered (less_fn h) (vals h)" and i: "i < length (heap h)"
  shows "\<exists>h'. heap_Remove h i = Some (vals h ! i, h') \<and> heapImpl_inv h' \<and>
           less_fn h' = less_fn h \<and> heap_ordered (less_fn h) (vals h') \<and>
           objs h' = (objs h)(heap h ! i := None) \<and>
           mset (vals h) = add_mset (vals h ! i) (mset (vals h'))"
proof -
  define n where "n = length (heap h) - 1"
  let ?lt = "less_fn h"
  show ?thesis
  proof (cases "n = i")
    case True
    have r: "reorders h h (Suc n)" "reorders h h n" using inv by (simp_all add: reorders_refl)
    have sw: "heap h = (heap h)[i := heap h ! n, n := heap h ! i]" using True by simp
    have up: "heap_upto ?lt (vals h) n" using ho n_def by (simp add: heap_ordered_def heap_upto_def)
    have "heap_Remove h i = heapImpl_Pop h" using True by (simp add: heap_Remove_def Len_def n_def)
    then show ?thesis using pop_after_sift[OF inv i n_def r(1) sw r(2) up] by simp
  next
    case False
    then have i_n: "i < n" using i n_def by simp
    obtain h1 where h1: "Swap h i n = Some h1" "reorders h h1 (Suc n)"
        "heap h1 = (heap h)[i := heap h ! n, n := heap h ! i]"
        "vals h1 = (vals h)[i := vals h ! n, n := vals h ! i]"
      using Swap_last[OF inv i n_def] by blast
    have less1: "less_fn h1 = ?lt" using h1(2) by (rule reorders_less)
    have inv1: "heapImpl_inv h1" using h1(2) by (rule reorders_inv)
    have len1: "n \<le> length (heap h1)" using reorders_length[OF h1(2)] n_def by simp
    have fi: "fix_inv (less_fn h1) (vals h1) i n"
      unfolding h1(4) less1 using fix_inv_after_swap[OF wo ho, of n i] n_def by simp
    have wo1: "weak_order (less_fn h1)" using wo less1 by simp
    obtain h2 where h2: "fixAt h1 i n = Some h2" "reorders h1 h2 n"
        "heap_upto (less_fn h1) (vals h2) n"
      using fixAt_correct[OF wo1 inv1 i_n len1 fi] by blast
    have "heap_Remove h i = heapImpl_Pop h2"
      using False h1(1) h2(1) by (simp add: heap_Remove_def Len_def Let_def n_def)
    then show ?thesis using pop_after_sift[OF inv i n_def h1(2,3) h2(2)] h2(3) less1 by simp
  qed
qed

lemma heap_Fix_correct:
  assumes wo: "weak_order (less_fn h)" and inv: "heapImpl_inv h"
    and i: "i < length (heap h)" and fi: "fix_inv (less_fn h) (vals h) i (length (heap h))"
  shows "\<exists>h'. heap_Fix h i = Some h' \<and> heapImpl_inv h' \<and> less_fn h' = less_fn h \<and>
           heap_ordered (less_fn h) (vals h') \<and> objs h' = objs h"
proof -
  obtain h' where h': "fixAt h i (length (heap h)) = Some h'" "reorders h h' (length (heap h))"
      "heap_upto (less_fn h) (vals h') (length (heap h))"
    using fixAt_correct[OF wo inv i _ fi] by auto
  have "heap_ordered (less_fn h) (vals h')"
    using h'(3) reorders_length[OF h'(2)] by (simp add: heap_ordered_def)
  then show ?thesis
    using h'(1) reorders_inv[OF h'(2)] reorders_less[OF h'(2)] reorders_objs[OF h'(2)]
    by (simp add: heap_Fix_def Len_def)
qed

section \<open>The operations of a ClusterQueue keep its invariant\<close>

lemma heap_invariant_iff:
  assumes "heapImpl_inv (cq_heap cq)"
  shows "heap_invariant cq \<longleftrightarrow> heap_ordered (less_fn (cq_heap cq)) (vals (cq_heap cq))"
proof -
  let ?h = "cq_heap cq"
  have "Less ?h i ((i - 1) div 2) = Some (less_fn ?h (vals ?h ! i) (vals ?h ! ((i - 1) div 2)))"
    if "i < length (heap ?h)" for i
  proof -
    have "(i - 1) div 2 < length (heap ?h)" using that by arith
    then show ?thesis using Less_correct[OF assms that] by simp
  qed
  then show ?thesis
    unfolding heap_invariant_def heap_ordered_def heap_upto_def ok_at_def Len_def by auto
qed

lemma cq_inv_good:
  assumes "cq_inv cq"
  shows "weak_order (less_fn (cq_heap cq))" "heapImpl_inv (cq_heap cq)"
    "heap_ordered (less_fn (cq_heap cq)) (vals (cq_heap cq))" "less_fn (cq_heap cq) = strictFIFO"
  using assms weak_order_strictFIFO by (auto simp: cq_inv_def)

lemma cq_inv_heap_invariant: "cq_inv cq \<Longrightarrow> heap_invariant cq"
  using heap_invariant_iff[of cq] by (auto simp: cq_inv_def)

lemma present_iff:
  assumes "heapImpl_inv h"
  shows "items h k \<noteq> None \<longleftrightarrow> k \<in> set (heap h)"
  using assms unfolding heapImpl_inv_def by (metis domIff)

lemma newClusterQueue_inv: "newClusterQueue d = Inr cq \<Longrightarrow> cq_inv cq"
  by (auto simp: newClusterQueue_def cq_inv_def heapImpl_inv_def heap_ordered_def heap_upto_def
      vals_def split: if_splits)

lemma push_step:
  assumes inv: "cq_inv cq" and new: "items (cq_heap cq) (Key (Obj x)) = None"
  shows "\<exists>h'. heap_Push (cq_heap cq) x = Some h' \<and> cq_inv (cq\<lparr>cq_heap := h'\<rparr>) \<and>
      objs h' = (objs (cq_heap cq))(Key (Obj x) \<mapsto> x) \<and>
      mset (vals h') = add_mset x (mset (vals (cq_heap cq)))"
proof -
  note g = cq_inv_good[OF inv]
  have "Key (Obj x) \<notin> set (heap (cq_heap cq))" using present_iff[OF g(2)] new by blast
  then show ?thesis using heap_Push_correct[OF g(1,2,3)] g(4) by (fastforce simp: cq_inv_def)
qed

lemma PushIfNotPresent_present:
  "items (cq_heap cq) (Key (Obj info)) \<noteq> None \<Longrightarrow> PushIfNotPresent cq info = Some (False, cq)"
  by (auto simp: PushIfNotPresent_def)

lemma PushIfNotPresent_absent:
  assumes "cq_inv cq" "items (cq_heap cq) (Key (Obj info)) = None"
  shows "\<exists>cq'. PushIfNotPresent cq info = Some (True, cq') \<and> cq_inv cq' \<and>
      objs (cq_heap cq') = (objs (cq_heap cq))(Key (Obj info) \<mapsto> info) \<and>
      mset (vals (cq_heap cq')) = add_mset info (mset (vals (cq_heap cq)))"
  using push_step[OF assms] assms(2) by (auto simp: PushIfNotPresent_def)

lemma PushOrUpdate_absent:
  assumes "cq_inv cq" "items (cq_heap cq) (Key w) = None"
  shows "\<exists>cq'. PushOrUpdate cq w = Some cq' \<and> cq_inv cq' \<and>
      objs (cq_heap cq') = (objs (cq_heap cq))(Key w \<mapsto> NewInfo w) \<and>
      mset (vals (cq_heap cq')) = add_mset (NewInfo w) (mset (vals (cq_heap cq)))"
proof -
  have k: "Key (Obj (NewInfo w)) = Key w" by (simp add: NewInfo_def)
  show ?thesis using push_step[OF assms(1), of "NewInfo w"] assms(2) k
    by (auto simp: PushOrUpdate_def Let_def)
qed

lemma item_position:
  assumes inv: "heapImpl_inv h" and it: "items h k = Some item"
  shows "index item < length (heap h)" "heap h ! index item = k"
proof -
  have "k \<in> set (heap h)" using present_iff[OF inv, of k] it by simp
  then obtain i where i: "i < length (heap h)" "heap h ! i = k" by (auto simp: in_set_conv_nth)
  then have "index item = i" using inv it unfolding heapImpl_inv_def by auto
  then show "index item < length (heap h)" "heap h ! index item = k" using i by simp_all
qed

lemma PushOrUpdate_present:
  assumes inv: "cq_inv cq" and it: "items (cq_heap cq) (Key w) = Some item"
  shows "\<exists>cq'. PushOrUpdate cq w = Some cq' \<and> cq_inv cq' \<and>
      objs (cq_heap cq') = (objs (cq_heap cq))(Key w \<mapsto> NewInfo w)"
proof -
  let ?h = "cq_heap cq"
  let ?k = "Key w"
  let ?i = "index item"
  note g = cq_inv_good[OF inv]
  note pos = item_position[OF g(2) it]
  define h1 where "h1 = ?h\<lparr>items := (items ?h)(?k \<mapsto> item\<lparr>obj := NewInfo w\<rparr>)\<rparr>"
  have hp1: "heap h1 = heap ?h" "less_fn h1 = less_fn ?h" by (simp_all add: h1_def)
  have ob1: "objs h1 = (objs ?h)(?k \<mapsto> NewInfo w)"
    by (rule ext) (simp add: objs_def h1_def)
  have dist: "distinct (heap ?h)" using g(2) by (simp add: heapImpl_inv_def)
  have idx: "index it' = i \<and> Key (Obj (obj it')) = heap h1 ! i"
    if "i < length (heap h1)" "items h1 (heap h1 ! i) = Some it'" for i it'
  proof (cases "heap ?h ! i = ?k")
    case True
    then have "heap ?h ! i = heap ?h ! ?i" using pos by simp
    then have "i = ?i" using nth_eq_iff_index_eq[OF dist, of i ?i] pos that hp1 by simp
    moreover have "it' = item\<lparr>obj := NewInfo w\<rparr>" using that True by (simp add: h1_def)
    ultimately show ?thesis using True by (simp add: NewInfo_def h1_def)
  next
    case False
    then have "items ?h (heap ?h ! i) = Some it'" using that by (simp add: h1_def)
    then show ?thesis using g(2) that hp1 unfolding heapImpl_inv_def by simp
  qed
  have "dom (items h1) = dom (items ?h)" using it by (auto simp: h1_def)
  then have inv1: "heapImpl_inv h1"
    unfolding heapImpl_inv_def using g(2) idx hp1 by (simp add: heapImpl_inv_def)
  have same: "\<forall>k<length (heap ?h). k \<noteq> ?i \<longrightarrow> vals h1 ! k = vals ?h ! k"
  proof (intro allI impI)
    fix k assume k: "k < length (heap ?h)" "k \<noteq> ?i"
    then have "heap ?h ! k \<noteq> heap ?h ! ?i"
      using nth_eq_iff_index_eq[OF dist, of k ?i] pos by simp
    then have "heap ?h ! k \<noteq> ?k" using pos by simp
    then show "vals h1 ! k = vals ?h ! k" using k ob1 by (simp add: vals_def hp1)
  qed
  have fi: "fix_inv (less_fn h1) (vals h1) ?i (length (heap h1))"
    unfolding hp1
    by (rule fix_inv_of_heap[OF g(1) _ same]) (use g(3) in \<open>simp add: heap_ordered_def\<close>)
  have wo1: "weak_order (less_fn h1)" using g(1) hp1 by simp
  obtain h' where h': "heap_Fix h1 ?i = Some h'" "heapImpl_inv h'" "less_fn h' = less_fn h1"
      "heap_ordered (less_fn h1) (vals h')" "objs h' = objs h1"
    using heap_Fix_correct[OF wo1 inv1 _ fi] pos(1) hp1 by auto
  have "PushOrUpdate cq w = Some (cq\<lparr>cq_heap := h'\<rparr>)"
    using it h'(1) by (simp add: PushOrUpdate_def Let_def h1_def)
  moreover have "cq_inv (cq\<lparr>cq_heap := h'\<rparr>)" using h' hp1 g(4) by (simp add: cq_inv_def)
  ultimately show ?thesis using h'(5) ob1 by simp
qed

lemma Delete_absent: "items (cq_heap cq) (Key w) = None \<Longrightarrow> Delete cq w = Some cq"
  by (simp add: Delete_def)

lemma Delete_present:
  assumes inv: "cq_inv cq" and it: "items (cq_heap cq) (Key w) = Some item"
  shows "\<exists>cq'. Delete cq w = Some cq' \<and> cq_inv cq' \<and>
      objs (cq_heap cq') = (objs (cq_heap cq))(Key w := None)"
proof -
  note g = cq_inv_good[OF inv]
  note pos = item_position[OF g(2) it]
  obtain h' where h': "heap_Remove (cq_heap cq) (index item) = Some (vals (cq_heap cq) ! index item, h')"
      "heapImpl_inv h'" "less_fn h' = less_fn (cq_heap cq)"
      "heap_ordered (less_fn (cq_heap cq)) (vals h')"
      "objs h' = (objs (cq_heap cq))(heap (cq_heap cq) ! index item := None)"
    using heap_Remove_correct[OF g(1,2,3) pos(1)] by blast
  have "Delete cq w = Some (cq\<lparr>cq_heap := h'\<rparr>)" using it h'(1) by (simp add: Delete_def)
  moreover have "cq_inv (cq\<lparr>cq_heap := h'\<rparr>)" using h' g(4) by (simp add: cq_inv_def)
  ultimately show ?thesis using h'(5) pos(2) by simp
qed

lemma Pop_empty: "Len (cq_heap cq) = 0 \<Longrightarrow> Pop cq = Some (None, cq)"
  by (simp add: Pop_def)

lemma Pop_nonempty:
  assumes inv: "cq_inv cq" and ne: "heap (cq_heap cq) \<noteq> []"
  shows "\<exists>cq'. Pop cq = Some (Some (vals (cq_heap cq) ! 0), cq') \<and> cq_inv cq' \<and>
      objs (cq_heap cq') = (objs (cq_heap cq))(heap (cq_heap cq) ! 0 := None) \<and>
      mset (vals (cq_heap cq)) = add_mset (vals (cq_heap cq) ! 0) (mset (vals (cq_heap cq')))"
proof -
  note g = cq_inv_good[OF inv]
  obtain h' where h': "heap_Pop (cq_heap cq) = Some (vals (cq_heap cq) ! 0, h')"
      "heapImpl_inv h'" "less_fn h' = less_fn (cq_heap cq)"
      "heap_ordered (less_fn (cq_heap cq)) (vals h')"
      "objs h' = (objs (cq_heap cq))(heap (cq_heap cq) ! 0 := None)"
      "mset (vals (cq_heap cq)) = add_mset (vals (cq_heap cq) ! 0) (mset (vals h'))"
    using heap_Pop_correct[OF g(1,2,3) ne] by blast
  have "Pop cq = Some (Some (vals (cq_heap cq) ! 0), cq\<lparr>cq_heap := h'\<rparr>)"
    using ne h'(1) by (simp add: Pop_def Len_def)
  moreover have "cq_inv (cq\<lparr>cq_heap := h'\<rparr>)" using h' g(4) by (simp add: cq_inv_def)
  ultimately show ?thesis using h'(5,6) by simp
qed

section \<open>Bulk transfer and sequences of operations\<close>

lemma absent_iff: "items h k = None \<longleftrightarrow> k \<notin> dom (objs h)"
  by (simp add: dom_objs domIff)

lemma cq_size: "cq_inv cq \<Longrightarrow> Len (cq_heap cq) = card (dom (objs (cq_heap cq)))"
  using inv_length_heap[of "cq_heap cq"] by (simp add: cq_inv_def Len_def)

lemma AddFromQueue_loop_correct:
  "cq_inv cq \<Longrightarrow>
   \<exists>cq'. AddFromQueue_loop cq added ws =
           Some (added \<or> (\<exists>w\<in>set ws. items (cq_heap cq) (Key (Obj w)) = None), cq') \<and>
         cq_inv cq' \<and>
         dom (objs (cq_heap cq')) = dom (objs (cq_heap cq)) \<union> (\<lambda>w. Key (Obj w)) ` set ws \<and>
         ((\<forall>w\<in>set ws. items (cq_heap cq) (Key (Obj w)) \<noteq> None) \<longrightarrow> cq' = cq)"
proof (induction ws arbitrary: cq added)
  case Nil
  then show ?case by simp
next
  case (Cons w ws)
  show ?case
  proof (cases "items (cq_heap cq) (Key (Obj w)) = None")
    case False
    then have p: "PushIfNotPresent cq w = Some (False, cq)" by (rule PushIfNotPresent_present)
    have k: "Key (Obj w) \<in> dom (objs (cq_heap cq))" using False by (simp add: absent_iff)
    obtain cq' where c: "AddFromQueue_loop cq added ws =
           Some (added \<or> (\<exists>w\<in>set ws. items (cq_heap cq) (Key (Obj w)) = None), cq')"
        "cq_inv cq'"
        "dom (objs (cq_heap cq')) = dom (objs (cq_heap cq)) \<union> (\<lambda>w. Key (Obj w)) ` set ws"
        "(\<forall>w\<in>set ws. items (cq_heap cq) (Key (Obj w)) \<noteq> None) \<longrightarrow> cq' = cq"
      using Cons.IH[OF Cons.prems, of added] by blast
    have "AddFromQueue_loop cq added (w # ws) =
        Some (added \<or> (\<exists>w\<in>set (w # ws). items (cq_heap cq) (Key (Obj w)) = None), cq')"
      using p c(1) False by auto
    moreover have "dom (objs (cq_heap cq')) =
        dom (objs (cq_heap cq)) \<union> (\<lambda>w. Key (Obj w)) ` set (w # ws)"
      using c(3) k by auto
    ultimately show ?thesis using c(2,4) by auto
  next
    case True
    obtain cq1 where p: "PushIfNotPresent cq w = Some (True, cq1)" "cq_inv cq1"
        "objs (cq_heap cq1) = (objs (cq_heap cq))(Key (Obj w) \<mapsto> w)"
      using PushIfNotPresent_absent[OF Cons.prems True] by blast
    obtain cq' where c: "AddFromQueue_loop cq1 True ws =
           Some (True \<or> (\<exists>w\<in>set ws. items (cq_heap cq1) (Key (Obj w)) = None), cq')"
        "cq_inv cq'"
        "dom (objs (cq_heap cq')) = dom (objs (cq_heap cq1)) \<union> (\<lambda>w. Key (Obj w)) ` set ws"
      using Cons.IH[OF p(2), of True] by blast
    have "AddFromQueue_loop cq added (w # ws) =
        Some (added \<or> (\<exists>w\<in>set (w # ws). items (cq_heap cq) (Key (Obj w)) = None), cq')"
      using p(1) c(1) True by auto
    moreover have "dom (objs (cq_heap cq')) =
        dom (objs (cq_heap cq)) \<union> (\<lambda>w. Key (Obj w)) ` set (w # ws)"
      using c(3) p(3) by auto
    ultimately show ?thesis using c(2) True by auto
  qed
qed

lemma DeleteFromQueue_loop_correct:
  "cq_inv cq \<Longrightarrow> \<exists>cq'. DeleteFromQueue_loop cq ws = Some cq' \<and> cq_inv cq'"
proof (induction ws arbitrary: cq)
  case Nil
  then show ?case by simp
next
  case (Cons w ws)
  have "\<exists>cq1. Delete cq (Obj w) = Some cq1 \<and> cq_inv cq1"
  proof (cases "items (cq_heap cq) (Key (Obj w))")
    case None
    then show ?thesis using Delete_absent Cons.prems by blast
  next
    case (Some item)
    then show ?thesis using Delete_present[OF Cons.prems] by blast
  qed
  then obtain cq1 where d: "Delete cq (Obj w) = Some cq1" "cq_inv cq1" by blast
  then show ?case using Cons.IH[OF d(2)] by simp
qed

lemma Pop_inv: "cq_inv cq \<Longrightarrow> \<exists>r cq'. Pop cq = Some (r, cq') \<and> cq_inv cq'"
proof (cases "heap (cq_heap cq) = []")
  case True
  assume "cq_inv cq"
  then show ?thesis using True Pop_empty[of cq] by (simp add: Len_def)
next
  case False
  assume "cq_inv cq"
  then show ?thesis using Pop_nonempty[OF _ False] by blast
qed

lemma apply_op_inv: "cq_inv cq \<Longrightarrow> \<exists>cq'. apply_op cq x = Some cq' \<and> cq_inv cq'"
proof (cases x)
  case (OpPushIfNotPresent info)
  assume inv: "cq_inv cq"
  show ?thesis
  proof (cases "items (cq_heap cq) (Key (Obj info)) = None")
    case True
    then show ?thesis using PushIfNotPresent_absent[OF inv True] OpPushIfNotPresent by auto
  next
    case False
    then show ?thesis using PushIfNotPresent_present[OF False] inv OpPushIfNotPresent by simp
  qed
next
  case (OpPushOrUpdate w)
  assume inv: "cq_inv cq"
  show ?thesis
  proof (cases "items (cq_heap cq) (Key w)")
    case None
    then show ?thesis using PushOrUpdate_absent[OF inv None] OpPushOrUpdate by auto
  next
    case (Some item)
    then show ?thesis using PushOrUpdate_present[OF inv Some] OpPushOrUpdate by auto
  qed
next
  case (OpDelete w)
  assume inv: "cq_inv cq"
  show ?thesis
  proof (cases "items (cq_heap cq) (Key w)")
    case None
    then show ?thesis using Delete_absent[OF None] inv OpDelete by simp
  next
    case (Some item)
    then show ?thesis using Delete_present[OF inv Some] OpDelete by auto
  qed
next
  case OpPop
  assume inv: "cq_inv cq"
  then show ?thesis using Pop_inv[OF inv] OpPop by auto
next
  case (OpAddFromQueue ws)
  assume inv: "cq_inv cq"
  then show ?thesis using AddFromQueue_loop_correct[OF inv, of False ws] OpAddFromQueue by auto
next
  case (OpDeleteFromQueue ws)
  assume inv: "cq_inv cq"
  then show ?thesis using DeleteFromQueue_loop_correct[OF inv, of ws] OpDeleteFromQueue by simp
qed

lemma run_inv: "cq_inv cq \<Longrightarrow> \<exists>cq'. run cq xs = Some cq' \<and> cq_inv cq'"
proof (induction xs arbitrary: cq)
  case Nil
  then show ?case by simp
next
  case (Cons x xs)
  obtain cq1 where s: "apply_op cq x = Some cq1" "cq_inv cq1"
    using apply_op_inv[OF Cons.prems] by blast
  then show ?case using Cons.IH[OF s(2)] by simp
qed

lemma reachable_inv:
  assumes "newClusterQueue d = Inr cq0" "run cq0 ops = Some cq"
  shows "cq_inv cq"
  using run_inv[OF newClusterQueue_inv[OF assms(1)], of ops] assms(2) by simp

lemma queue_inv_AddOrUpdate: "queue_inv q \<Longrightarrow> queue_inv (AddOrUpdate q w)"
  by (auto simp: queue_inv_def AddOrUpdate_def Let_def NewInfo_def split: option.splits)

lemma new_keys_queue_inv:
  assumes "queue_inv q"
  shows "new_keys cq q = {k \<in> dom (q_items q). items (cq_heap cq) k = None}"
  using assms unfolding new_keys_def queue_inv_def ran_def by auto

lemma queue_inv_newQueue: "queue_inv (newQueue name)"
  by (simp add: queue_inv_def newQueue_def)

section \<open>Pop returns a least info\<close>

lemma Pop_least:
  assumes inv: "cq_inv cq" and ne: "vals (cq_heap cq) \<noteq> []"
  shows "\<exists>x cq'. Pop cq = Some (Some x, cq') \<and> cq_inv cq' \<and>
      mset (vals (cq_heap cq)) = add_mset x (mset (vals (cq_heap cq'))) \<and>
      (\<forall>y\<in>#mset (vals (cq_heap cq)). \<not> strictFIFO y x)"
proof -
  let ?xs = "vals (cq_heap cq)"
  note g = cq_inv_good[OF inv]
  have ne': "heap (cq_heap cq) \<noteq> []" using ne by (auto simp: vals_def)
  obtain cq' where p: "Pop cq = Some (Some (?xs ! 0), cq')" "cq_inv cq'"
      "mset ?xs = add_mset (?xs ! 0) (mset (vals (cq_heap cq')))"
    using Pop_nonempty[OF inv ne'] by blast
  have "\<not> strictFIFO y (?xs ! 0)" if "y \<in> set ?xs" for y
  proof -
    have "\<exists>i<length ?xs. ?xs ! i = y" using that by (simp only: in_set_conv_nth)
    then obtain i where "i < length ?xs" "?xs ! i = y" by blast
    then show ?thesis
      using root_least[OF g(1), of ?xs "length ?xs" i] g(3,4) by (simp add: heap_ordered_def)
  qed
  then have "\<forall>y\<in>#mset ?xs. \<not> strictFIFO y (?xs ! 0)" by simp
  then show ?thesis using p by blast
qed

lemma pops_in_order:
  assumes inv: "cq_inv cq"
    and content: "mset (vals (cq_heap cq)) = {#a, b, c, d#}"
    and prio: "Priority (Obj a) = 5" "Priority (Obj b) = 5" "Priority (Obj c) = 3"
      "Priority (Obj d) = 9"
    and age: "CreationTimestamp (Obj a) < CreationTimestamp (Obj b)"
  shows "\<exists>cq1 cq2 cq3 cq4.
      Pop cq = Some (Some d, cq1) \<and> Pop cq1 = Some (Some a, cq2) \<and>
      Pop cq2 = Some (Some b, cq3) \<and> Pop cq3 = Some (Some c, cq4) \<and>
      Pop cq4 = Some (None, cq4)"
proof -
  have lt: "strictFIFO d a" "strictFIFO d b" "strictFIFO d c" "strictFIFO a b" "strictFIFO a c"
      "strictFIFO b c"
    using prio age by (simp_all add: strictFIFO_def Let_def Before_def word_sless_alt)
  have ne: "d \<noteq> a" "d \<noteq> b" "d \<noteq> c" "a \<noteq> b" "a \<noteq> c" "b \<noteq> c"
    using prio age by auto
  \<comment> \<open>first pop\<close>
  have "vals (cq_heap cq) \<noteq> []" using content by auto
  then obtain x1 cq1 where p1: "Pop cq = Some (Some x1, cq1)" "cq_inv cq1"
      "mset (vals (cq_heap cq)) = add_mset x1 (mset (vals (cq_heap cq1)))"
      "\<forall>y\<in>#mset (vals (cq_heap cq)). \<not> strictFIFO y x1"
    using Pop_least[OF inv] by blast
  have "x1 \<in># {#a, b, c, d#}" using p1(3) content by (metis union_single_eq_member)
  then have x1: "x1 = d" using p1(4) content lt by auto
  have c1: "mset (vals (cq_heap cq1)) = {#a, b, c#}"
    using p1(3) content x1 by (simp add: add_mset_commute)
  \<comment> \<open>second pop\<close>
  have "vals (cq_heap cq1) \<noteq> []" using c1 by auto
  then obtain x2 cq2 where p2: "Pop cq1 = Some (Some x2, cq2)" "cq_inv cq2"
      "mset (vals (cq_heap cq1)) = add_mset x2 (mset (vals (cq_heap cq2)))"
      "\<forall>y\<in>#mset (vals (cq_heap cq1)). \<not> strictFIFO y x2"
    using Pop_least[OF p1(2)] by blast
  have "x2 \<in># {#a, b, c#}" using p2(3) c1 by (metis union_single_eq_member)
  then have x2: "x2 = a" using p2(4) c1 lt by auto
  have c2: "mset (vals (cq_heap cq2)) = {#b, c#}"
    using p2(3) c1 x2 by simp
  \<comment> \<open>third pop\<close>
  have "vals (cq_heap cq2) \<noteq> []" using c2 by auto
  then obtain x3 cq3 where p3: "Pop cq2 = Some (Some x3, cq3)" "cq_inv cq3"
      "mset (vals (cq_heap cq2)) = add_mset x3 (mset (vals (cq_heap cq3)))"
      "\<forall>y\<in>#mset (vals (cq_heap cq2)). \<not> strictFIFO y x3"
    using Pop_least[OF p2(2)] by blast
  have "x3 \<in># {#b, c#}" using p3(3) c2 by (metis union_single_eq_member)
  then have x3: "x3 = b" using p3(4) c2 lt by auto
  have c3: "mset (vals (cq_heap cq3)) = {#c#}"
    using p3(3) c2 x3 by simp
  \<comment> \<open>fourth pop\<close>
  have "vals (cq_heap cq3) \<noteq> []" using c3 by auto
  then obtain x4 cq4 where p4: "Pop cq3 = Some (Some x4, cq4)" "cq_inv cq4"
      "mset (vals (cq_heap cq3)) = add_mset x4 (mset (vals (cq_heap cq4)))"
    using Pop_least[OF p3(2)] by blast
  have "x4 \<in># {#c#}" using p4(3) c3 by (metis union_single_eq_member)
  then have x4: "x4 = c" by simp
  have "mset (vals (cq_heap cq4)) = {#}" using p4(3) c3 x4 by simp
  then have "Len (cq_heap cq4) = 0" by (simp add: Len_def vals_def)
  then have p5: "Pop cq4 = Some (None, cq4)" by (rule Pop_empty)
  show ?thesis using p1(1) p2(1) p3(1) p4(1) p5 x1 x2 x3 x4 by blast
qed

section \<open>The demand calculator within the range of int64\<close>

lemma sint_add_in_range:
  fixes a b :: int64
  assumes "in_range (sint a + sint b)"
  shows "sint (a + b) = sint a + sint b"
  using assms by (simp add: in_range_def sint_word_add signed_take_bit_int_eq_self)

lemma sint_mult_in_range:
  fixes a b :: int64
  assumes "in_range (sint a * sint b)"
  shows "sint (a * b) = sint a * sint b"
  using assms by (simp add: in_range_def sint_word_mult signed_take_bit_int_eq_self)

lemma sint_scast_count: "sint (scast (c :: int32) :: int64) = sint c"
proof -
  have "- (2 ^ 31) \<le> sint c" "sint c < 2 ^ 31" using sint_ge[of c] sint_lt[of c] by simp_all
  then have "- (2 ^ 63) \<le> sint c" "sint c < 2 ^ 63" by simp_all
  then show ?thesis by (simp add: signed_scast_eq signed_take_bit_int_eq_self)
qed

lemma sint_max64: "sint (max64 a b) = max (sint a) (sint b)"
  by (simp add: max64_def word_sless_alt max_def)

lemma get_add:
  "get (add r o') name = (case o' name of None \<Rightarrow> get r name | Some v \<Rightarrow> get r name + v)"
  by (simp add: get_def add_def split: option.splits)

lemma get_setMax:
  "get (setMax r o') name =
     (case o' name of None \<Rightarrow> get r name | Some v \<Rightarrow> max64 (get r name) v)"
  by (simp add: get_def setMax_def split: option.splits)

lemma get_scale: "get (scale r f) name = get r name * f"
  by (simp add: get_def scale_def split: option.splits)

lemma newRequests_at: "newRequests rl name = map_option (ResourceValue name) (rl name)"
  by (simp add: newRequests_def split: option.splits)

lemma sint_add_requests:
  assumes "in_range (sint (get r name) + req_value name rl)"
  shows "sint (get (add r (newRequests rl)) name) = sint (get r name) + req_value name rl"
proof (cases "rl name")
  case None
  then show ?thesis by (simp add: get_add newRequests_at req_value_def)
next
  case (Some q)
  then show ?thesis
    using assms sint_add_in_range[of "get r name" "ResourceValue name q"]
    by (simp add: get_add newRequests_at req_value_def)
qed

lemma sint_fold_add:
  "sums_in_range name cs (sint (get r name)) \<Longrightarrow>
   sint (get (fold (\<lambda>c res. add res (newRequests (c_Requests c))) cs r) name)
     = sint (get r name) + exact_container_sum name cs"
proof (induction cs arbitrary: r)
  case Nil
  then show ?case by (simp add: exact_container_sum_def)
next
  case (Cons c cs)
  let ?r = "add r (newRequests (c_Requests c))"
  have step: "sint (get ?r name) = sint (get r name) + req_value name (c_Requests c)"
    using Cons.prems by (intro sint_add_requests) simp
  have "sint (get (fold (\<lambda>c res. add res (newRequests (c_Requests c))) cs ?r) name)
      = sint (get ?r name) + exact_container_sum name cs"
    using Cons.prems step by (intro Cons.IH) simp
  then show ?case using step by (simp add: exact_container_sum_def)
qed

lemma sint_fold_setMax:
  "sint (get (fold (\<lambda>c res. setMax res (newRequests (c_Requests c))) cs r) name)
     = exact_init_merge name cs (sint (get r name))"
proof (induction cs arbitrary: r)
  case Nil
  then show ?case by simp
next
  case (Cons c cs)
  have "sint (get (setMax r (newRequests (c_Requests c))) name)
      = (case c_Requests c name of None \<Rightarrow> sint (get r name)
         | Some q \<Rightarrow> max (sint (get r name)) (sint (ResourceValue name q)))"
    by (simp add: get_setMax newRequests_at sint_max64 split: option.splits)
  then show ?case using Cons.IH by simp
qed

lemma sint_podRequests:
  assumes "sums_in_range name (Containers spec) 0" and "in_range (exact_pod_demand name spec)"
  shows "sint (get (podRequests spec) name) = exact_pod_demand name spec"
proof -
  let ?S = "exact_container_sum name (Containers spec)"
  let ?M = "exact_init_merge name (InitContainers spec) ?S"
  let ?O = "req_value name (Overhead spec)"
  let ?r1 = "fold (\<lambda>c res. add res (newRequests (c_Requests c))) (Containers spec) Map.empty"
  let ?r2 = "fold (\<lambda>c res. setMax res (newRequests (c_Requests c))) (InitContainers spec) ?r1"
  have e: "sint (get Map.empty name) = 0" by (simp add: get_def)
  have r1: "sint (get ?r1 name) = ?S"
    using sint_fold_add[of name "Containers spec" Map.empty] assms(1) e by simp
  have r2: "sint (get ?r2 name) = ?M"
    using sint_fold_setMax[where name = name and cs = "InitContainers spec" and r = ?r1] r1
    by simp
  have "sint (get (add ?r2 (newRequests (Overhead spec))) name) = ?M + ?O"
    using sint_add_requests[of ?r2 name "Overhead spec"] r2 assms(2)
    by (simp add: exact_pod_demand_def)
  then show ?thesis by (simp add: podRequests_def exact_pod_demand_def Let_def)
qed

section \<open>Evaluating the operations on concrete inputs\<close>

lemmas eval_defs = PushOrUpdate_def PushIfNotPresent_def Delete_def Pop_def heap_Push_def
  heap_Pop_def heap_Remove_def heap_Fix_def fixAt_def down_def heapImpl_Push_def
  heapImpl_Pop_def Let_def NewInfo_def Key_def totalRequests_def Len_def up.simps
  down_loop.simps Less_def Swap_def setIndex_def strictFIFO_def Priority_def Before_def
  word_sless_alt workload_def empty_cq_def info_a_def info_b_def info_c_def info_d_def

lemma new_strict: "newClusterQueue strict_def = Inr empty_cq"
  by (simp add: newClusterQueue_def strict_def_def empty_cq_def)

section \<open>The claims\<close>

subsection \<open>Resource aggregation\<close>

lemma cpu_of_aggregation:
  "map (\<lambda>r. get (psr_Requests r) ResourceCPU) (totalRequests aggregation_spec) = [1100]"
  by (simp add: aggregation_spec_def aggregation_podset_def cpu_container_def totalRequests_def
      podSetResources_def podSetFlavorsOf_def podRequests_def add_def setMax_def scale_def
      newRequests_def get_def ResourceValue_def max64_def word_sless_alt Let_def)

text \<open>
  C1, as the claim states it: the pod group of two containers of 100m and 200m CPU, an
  init container of 500m, an overhead of 50m and two replicas would have a total CPU
  demand of 1000. It does not: the overhead is added after the maximum is taken.
\<close>

theorem aggregation_total_is_not_1000:
  "map (\<lambda>r. get (psr_Requests r) ResourceCPU) (totalRequests aggregation_spec) \<noteq> [1000]"
  by (simp add: cpu_of_aggregation)

text \<open>
  C1, amended: for that pod group the total CPU demand is
  \<open>(max(500, 100 + 200) + 50) * 2 = 1100\<close>: the init container's maximum is taken against
  the container sum, the overhead is added to the result, and the sum is scaled by the
  replica count.
\<close>

theorem aggregation_total_is_1100:
  "map (\<lambda>r. get (psr_Requests r) ResourceCPU) (totalRequests aggregation_spec)
     = [(max64 500 (100 + 200) + 50) * 2] \<and>
   (max64 500 (100 + 200) + 50) * 2 = (1100 :: int64)"
  by (simp add: cpu_of_aggregation max64_def word_sless_alt)

subsection \<open>The demand of a pod group\<close>

lemma huge_podset_demand:
  "sint (get (psr_Requests (podSetResources Map.empty huge_podset)) ''memory'')
     = - 9223372036854775808"
  "exact_total_demand ''memory'' huge_podset = 9223372036854775808"
  by (simp_all add: huge_podset_def podSetResources_def podRequests_def add_def scale_def
      newRequests_def get_def ResourceValue_def ResourceCPU_def Let_def exact_total_demand_def
      exact_pod_demand_def exact_container_sum_def req_value_def)

text \<open>
  C2, as the claim states it, makes the scaled demand the exact integer product. Two
  replicas of a container that requests \<open>2^62\<close> bytes of memory have an exact demand of
  \<open>2^63\<close>; the \<^verbatim>\<open>int64\<close> product of the code wraps around to \<open>- 2^63\<close>.
\<close>

theorem scale_wraps_around:
  "sint (get (psr_Requests (podSetResources Map.empty huge_podset)) ''memory'')
     \<noteq> exact_total_demand ''memory'' huge_podset"
  by (simp add: huge_podset_demand)

text \<open>
  C2, amended: for every pod group and resource, as long as no step of the computation
  leaves the range of \<^verbatim>\<open>int64\<close>, the demand the code computes is the exact one: the sum
  over the containers, max-merged with the request of each init container, plus the
  overhead, times the replica count.
\<close>

theorem podSetResources_exact:
  assumes "no_overflow name ps"
  shows "sint (get (psr_Requests (podSetResources podSetFlavors ps)) name)
           = exact_total_demand name ps"
proof -
  have p: "sint (get (podRequests (ps_Spec ps)) name) = exact_pod_demand name (ps_Spec ps)"
    using assms by (intro sint_podRequests) (simp_all add: no_overflow_def)
  have "sint (get (podRequests (ps_Spec ps)) name * scast (ps_Count ps))
      = sint (get (podRequests (ps_Spec ps)) name) * sint (ps_Count ps)"
    using sint_mult_in_range[of "get (podRequests (ps_Spec ps)) name" "scast (ps_Count ps)"]
      p assms by (simp add: sint_scast_count exact_total_demand_def no_overflow_def)
  then show ?thesis
    using p by (simp add: podSetResources_def Let_def get_scale exact_total_demand_def)
qed

theorem podSetResources_exact_witness:
  "no_overflow ResourceCPU aggregation_podset \<and>
   sint (get (psr_Requests (podSetResources Map.empty aggregation_podset)) ResourceCPU)
     = exact_total_demand ResourceCPU aggregation_podset \<and>
   exact_total_demand ResourceCPU aggregation_podset = 1100"
proof -
  have d: "exact_pod_demand ResourceCPU (ps_Spec aggregation_podset) = 550"
    by (simp add: aggregation_podset_def cpu_container_def exact_pod_demand_def
        exact_container_sum_def req_value_def ResourceValue_def)
  have t: "exact_total_demand ResourceCPU aggregation_podset = 1100"
    using d by (simp add: exact_total_demand_def aggregation_podset_def)
  have s: "sums_in_range ResourceCPU (Containers (ps_Spec aggregation_podset)) 0"
    by (simp add: aggregation_podset_def cpu_container_def req_value_def ResourceValue_def
        in_range_def)
  have n: "no_overflow ResourceCPU aggregation_podset"
    using s d t by (simp add: no_overflow_def in_range_def)
  show ?thesis
    using podSetResources_exact [OF n, of Map.empty] n t by simp
qed

subsection \<open>Queue.AddOrUpdate\<close>

text \<open>
  C3: after \<^verbatim>\<open>AddOrUpdate\<close> with an updated workload of a key already present, the stored
  info's \<^verbatim>\<open>TotalRequests\<close> would be those of the updated workload. The code replaces
  \<^verbatim>\<open>Obj\<close> only: a workload first added with a request of 1000m CPU and then updated to
  2000m is stored with the new object and the old total of 1000.
\<close>

theorem AddOrUpdate_keeps_old_totalRequests:
  "map_option (\<lambda>info. (Obj info, map (\<lambda>r. get (psr_Requests r) ResourceCPU) (TotalRequests info)))
     (q_items (AddOrUpdate (AddOrUpdate empty_queue (cpu_workload ''job'' 1000 1))
                 (cpu_workload ''job'' 2000 2)) (Key (cpu_workload ''job'' 2000 2)))
     = Some (cpu_workload ''job'' 2000 2, [1000]) \<and>
   map (\<lambda>r. get (psr_Requests r) ResourceCPU) (totalRequests (Spec (cpu_workload ''job'' 2000 2)))
     = [2000]"
  by (simp add: AddOrUpdate_def empty_queue_def newQueue_def Key_def cpu_workload_def NewInfo_def Let_def
      cpu_container_def totalRequests_def podSetResources_def podSetFlavorsOf_def
      podRequests_def add_def setMax_def scale_def newRequests_def get_def ResourceValue_def)

subsection \<open>The strict FIFO comparator\<close>

text \<open>
  C4: \<^verbatim>\<open>strictFIFO a b\<close> holds exactly when the priority of \<open>a\<close> is strictly greater than
  that of \<open>b\<close>, or the priorities are equal and \<open>a\<close> was created strictly earlier.
\<close>

theorem strictFIFO_iff:
  "strictFIFO a b \<longleftrightarrow>
     (sint (Priority (Obj b)) < sint (Priority (Obj a)) \<or>
      (Priority (Obj a) = Priority (Obj b) \<and>
       CreationTimestamp (Obj a) < CreationTimestamp (Obj b)))"
  by (auto simp: strictFIFO_def Let_def Before_def word_sless_alt)

subsection \<open>Pop order\<close>

text \<open>
  C5: a ClusterQueue of the strict FIFO strategy that holds exactly four infos, \<open>a\<close> and
  \<open>b\<close> of priority 5 with \<open>a\<close> created before \<open>b\<close>, \<open>c\<close> of priority 3 and \<open>d\<close> of
  priority 9, returns \<open>d\<close>, \<open>a\<close>, \<open>b\<close>, \<open>c\<close> from four calls of \<^verbatim>\<open>Pop\<close>, and nil from the
  fifth. The ClusterQueue is any state reached from \<^verbatim>\<open>newClusterQueue\<close> by operations.
\<close>

theorem Pop_order:
  assumes "newClusterQueue apiCQ = Inr cq0" and "run cq0 ops = Some cq"
    and "mset (vals (cq_heap cq)) = {#a, b, c, d#}"
    and "Priority (Obj a) = 5" and "Priority (Obj b) = 5" and "Priority (Obj c) = 3"
    and "Priority (Obj d) = 9"
    and "CreationTimestamp (Obj a) < CreationTimestamp (Obj b)"
  shows "\<exists>cq1 cq2 cq3 cq4.
      Pop cq = Some (Some d, cq1) \<and> Pop cq1 = Some (Some a, cq2) \<and>
      Pop cq2 = Some (Some b, cq3) \<and> Pop cq3 = Some (Some c, cq4) \<and>
      Pop cq4 = Some (None, cq4)"
  using pops_in_order[OF reachable_inv[OF assms(1,2)] assms(3-8)] .

lemma run_push_four:
  "\<exists>cq. run empty_cq push_four = Some cq \<and>
        vals (cq_heap cq) = [info_d, info_a, info_c, info_b]"
  by (simp add: push_four_def eval_defs vals_def objs_def)

theorem Pop_order_witness:
  "\<exists>cq. newClusterQueue strict_def = Inr empty_cq \<and> run empty_cq push_four = Some cq \<and>
     mset (vals (cq_heap cq)) = {#info_a, info_b, info_c, info_d#} \<and>
     Priority (Obj info_a) = 5 \<and> Priority (Obj info_b) = 5 \<and> Priority (Obj info_c) = 3 \<and>
     Priority (Obj info_d) = 9 \<and>
     CreationTimestamp (Obj info_a) < CreationTimestamp (Obj info_b) \<and>
     (\<exists>cq1 cq2 cq3 cq4.
        Pop cq = Some (Some info_d, cq1) \<and> Pop cq1 = Some (Some info_a, cq2) \<and>
        Pop cq2 = Some (Some info_b, cq3) \<and> Pop cq3 = Some (Some info_c, cq4) \<and>
        Pop cq4 = Some (None, cq4))"
proof -
  obtain cq where r: "run empty_cq push_four = Some cq"
      "vals (cq_heap cq) = [info_d, info_a, info_c, info_b]"
    using run_push_four by blast
  have m: "mset (vals (cq_heap cq)) = {#info_a, info_b, info_c, info_d#}"
    using r(2) by (simp add: add_mset_commute)
  have p: "Priority (Obj info_a) = 5" "Priority (Obj info_b) = 5" "Priority (Obj info_c) = 3"
      "Priority (Obj info_d) = 9"
    by (simp_all add: info_a_def info_b_def info_c_def info_d_def NewInfo_def workload_def
        Priority_def)
  have t: "CreationTimestamp (Obj info_a) < CreationTimestamp (Obj info_b)"
    by (simp add: info_a_def info_b_def NewInfo_def workload_def)
  show ?thesis
    using Pop_order [OF new_strict r(1) m p t] new_strict r(1) m p t by blast
qed

subsection \<open>Membership uniqueness\<close>

text \<open>
  C6: in every state of a ClusterQueue reached from \<^verbatim>\<open>newClusterQueue\<close>, every
  operation returns with at most one entry per key (the slice holds no key twice, and
  holds the keys of the map); \<^verbatim>\<open>PushIfNotPresent\<close> of a key already present returns
  false and leaves the ClusterQueue as it is; \<^verbatim>\<open>PushOrUpdate\<close> of a key already present
  leaves one entry of that key, its value the fresh \<^verbatim>\<open>NewInfo\<close>.
\<close>

theorem one_entry_per_key:
  assumes "newClusterQueue apiCQ = Inr cq0" and "run cq0 ops = Some cq"
  shows "(\<exists>cq'. apply_op cq x = Some cq' \<and> distinct (heap (cq_heap cq')) \<and>
            dom (items (cq_heap cq')) = set (heap (cq_heap cq'))) \<and>
         (items (cq_heap cq) (Key (Obj info)) \<noteq> None \<longrightarrow>
            PushIfNotPresent cq info = Some (False, cq)) \<and>
         (items (cq_heap cq) (Key w) \<noteq> None \<longrightarrow>
            (\<exists>cq'. PushOrUpdate cq w = Some cq' \<and>
                  count_list (heap (cq_heap cq')) (Key w) = 1 \<and>
                  map_option obj (items (cq_heap cq') (Key w)) = Some (NewInfo w)))"
proof (intro conjI impI)
  have inv: "cq_inv cq" using assms by (rule reachable_inv)
  obtain cq' where a: "apply_op cq x = Some cq'" "cq_inv cq'"
    using apply_op_inv[OF inv] by blast
  then show "\<exists>cq'. apply_op cq x = Some cq' \<and> distinct (heap (cq_heap cq')) \<and>
            dom (items (cq_heap cq')) = set (heap (cq_heap cq'))"
    by (auto simp: cq_inv_def heapImpl_inv_def)
  show "PushIfNotPresent cq info = Some (False, cq)"
    if "items (cq_heap cq) (Key (Obj info)) \<noteq> None"
    using that by (rule PushIfNotPresent_present)
  show "\<exists>cq'. PushOrUpdate cq w = Some cq' \<and> count_list (heap (cq_heap cq')) (Key w) = 1 \<and>
          map_option obj (items (cq_heap cq') (Key w)) = Some (NewInfo w)"
    if present: "items (cq_heap cq) (Key w) \<noteq> None"
  proof -
    obtain item where "items (cq_heap cq) (Key w) = Some item" using present by blast
    then obtain cq' where u: "PushOrUpdate cq w = Some cq'" "cq_inv cq'"
        "objs (cq_heap cq') = (objs (cq_heap cq))(Key w \<mapsto> NewInfo w)"
      using PushOrUpdate_present[OF inv] by blast
    have o: "map_option obj (items (cq_heap cq') (Key w)) = Some (NewInfo w)"
      using u(3) by (metis fun_upd_same objs_def)
    have hi: "heapImpl_inv (cq_heap cq')" using u(2) by (simp add: cq_inv_def)
    then have "Key w \<in> set (heap (cq_heap cq'))"
      using o present_iff[OF hi, of "Key w"] by auto
    moreover have "distinct (heap (cq_heap cq'))" using hi by (simp add: heapImpl_inv_def)
    ultimately have "count_list (heap (cq_heap cq')) (Key w) = 1"
      by (metis count_mset distinct_count_atmost_1)
    then show ?thesis using u(1) o by blast
  qed
qed

lemma run_one:
  "\<exists>cq. run empty_cq [OpPushOrUpdate (workload ''a'' 5 1)] = Some cq \<and>
        items (cq_heap cq) ''ns/a'' \<noteq> None"
  by (simp add: eval_defs)

theorem one_entry_per_key_witness:
  "\<exists>cq. newClusterQueue strict_def = Inr empty_cq \<and>
     run empty_cq [OpPushOrUpdate (workload ''a'' 5 1)] = Some cq \<and>
     items (cq_heap cq) (Key (Obj info_a)) \<noteq> None \<and>
     items (cq_heap cq) (Key (workload ''a'' 7 1)) \<noteq> None \<and>
     (\<exists>cq'. apply_op cq (OpDelete (workload ''a'' 5 1)) = Some cq' \<and>
        distinct (heap (cq_heap cq')) \<and>
        dom (items (cq_heap cq')) = set (heap (cq_heap cq'))) \<and>
     PushIfNotPresent cq info_a = Some (False, cq) \<and>
     (\<exists>cq'. PushOrUpdate cq (workload ''a'' 7 1) = Some cq' \<and>
        count_list (heap (cq_heap cq')) (Key (workload ''a'' 7 1)) = 1 \<and>
        map_option obj (items (cq_heap cq') (Key (workload ''a'' 7 1)))
          = Some (NewInfo (workload ''a'' 7 1)))"
proof -
  obtain cq where r: "run empty_cq [OpPushOrUpdate (workload ''a'' 5 1)] = Some cq"
      "items (cq_heap cq) ''ns/a'' \<noteq> None"
    using run_one by blast
  have k: "Key (Obj info_a) = ''ns/a''" "Key (workload ''a'' 7 1) = ''ns/a''"
    by (simp_all add: info_a_def NewInfo_def Key_def workload_def)
  have p: "items (cq_heap cq) (Key (Obj info_a)) \<noteq> None"
      "items (cq_heap cq) (Key (workload ''a'' 7 1)) \<noteq> None"
    using r(2) k by simp_all
  show ?thesis
    using one_entry_per_key [OF new_strict r(1), of "OpDelete (workload ''a'' 5 1)" info_a
        "workload ''a'' 7 1"] new_strict r(1) p
    by blast
qed

subsection \<open>The heap invariant\<close>

text \<open>
  C7: every sequence of operations run on the ClusterQueue that \<^verbatim>\<open>newClusterQueue\<close>
  returns runs to its end without a panic, and the backing slice of the result is heap
  ordered: \<^verbatim>\<open>Less(i, (i - 1) / 2)\<close> is false at every position \<open>i\<close> after the root.
\<close>

theorem heap_invariant_after_operations:
  "newClusterQueue apiCQ = Inr cq0 \<Longrightarrow> \<exists>cq. run cq0 ops = Some cq \<and> heap_invariant cq"
  using run_inv[OF newClusterQueue_inv, of apiCQ cq0 ops] cq_inv_heap_invariant by blast

theorem heap_invariant_after_operations_witness:
  "newClusterQueue strict_def = Inr empty_cq \<and>
   (\<exists>cq. run empty_cq mixed_ops = Some cq \<and> heap_invariant cq) \<and>
   map_option (\<lambda>cq. heap (cq_heap cq)) (run empty_cq mixed_ops) = Some [''ns/c'', ''ns/d'']"
proof -
  have "map_option (\<lambda>cq. heap (cq_heap cq)) (run empty_cq mixed_ops) = Some [''ns/c'', ''ns/d'']"
    by (simp add: mixed_ops_def eval_defs)
  then show ?thesis
    using heap_invariant_after_operations [OF new_strict, of mixed_ops] new_strict by simp
qed

subsection \<open>Bulk transfer\<close>

lemma enumerates_ran: "enumerates kvs m \<Longrightarrow> set (map snd kvs) = ran m"
  unfolding enumerates_def using ran_distinct[of kvs] by auto

text \<open>
  C8: for a ClusterQueue reached from \<^verbatim>\<open>newClusterQueue\<close> and a queue whose items are
  visited in any order: when every item's key is present, \<^verbatim>\<open>AddFromQueue\<close> returns false
  and leaves the ClusterQueue (and so its size) unchanged; when some item's key is
  absent it returns true and the size grows by the number of keys added.
\<close>

theorem AddFromQueue_reports_added:
  assumes "newClusterQueue apiCQ = Inr cq0" and "run cq0 ops = Some cq"
    and "enumerates kvs (q_items q)"
  shows "\<exists>added cq'. AddFromQueue cq kvs = Some (added, cq') \<and>
      ((\<forall>info\<in>ran (q_items q). items (cq_heap cq) (Key (Obj info)) \<noteq> None) \<longrightarrow>
         \<not> added \<and> cq' = cq \<and> Len (cq_heap cq') = Len (cq_heap cq)) \<and>
      ((\<exists>info\<in>ran (q_items q). items (cq_heap cq) (Key (Obj info)) = None) \<longrightarrow>
         added \<and> Len (cq_heap cq') = Len (cq_heap cq) + card (new_keys cq q))"
proof -
  let ?ws = "map snd kvs"
  let ?A = "dom (objs (cq_heap cq))"
  let ?K = "(\<lambda>w. Key (Obj w)) ` set ?ws"
  have inv: "cq_inv cq" using assms(1,2) by (rule reachable_inv)
  have ws: "set ?ws = ran (q_items q)" using assms(3) by (rule enumerates_ran)
  obtain cq' where l: "AddFromQueue_loop cq False ?ws =
        Some (False \<or> (\<exists>w\<in>set ?ws. items (cq_heap cq) (Key (Obj w)) = None), cq')"
      "cq_inv cq'" "dom (objs (cq_heap cq')) = ?A \<union> ?K"
      "(\<forall>w\<in>set ?ws. items (cq_heap cq) (Key (Obj w)) \<noteq> None) \<longrightarrow> cq' = cq"
    using AddFromQueue_loop_correct[OF inv, of False ?ws] by blast
  have nk: "new_keys cq q = ?K - ?A"
    unfolding new_keys_def ws[symmetric] by (auto simp: absent_iff)
  have "heapImpl_inv (cq_heap cq)" using inv by (simp add: cq_inv_def)
  then have "finite ?A" using inv_set_heap[of "cq_heap cq"] finite_set by metis
  then have fin: "finite ?A" "finite ?K" by simp_all
  have "?A \<union> ?K = ?A \<union> (?K - ?A)" by auto
  then have "card (?A \<union> ?K) = card ?A + card (?K - ?A)"
    using card_Un_disjoint[of ?A "?K - ?A"] fin by auto
  then have size: "Len (cq_heap cq') = Len (cq_heap cq) + card (new_keys cq q)"
    using cq_size[OF inv] cq_size[OF l(2)] l(3) nk by simp
  show ?thesis
    using l(1,4) size unfolding AddFromQueue_def ws by auto
qed

lemma two_items_enumerates: "enumerates two_items (q_items two_queue)"
  by (simp add: enumerates_def two_queue_def two_items_def)

lemma run_nil: "run empty_cq [] = Some empty_cq"
  by simp

lemma run_add_two:
  "\<exists>cq. run empty_cq [OpAddFromQueue [info_a, info_b]] = Some cq \<and>
        items (cq_heap cq) ''ns/a'' \<noteq> None \<and> items (cq_heap cq) ''ns/b'' \<noteq> None"
  by (simp add: eval_defs)

theorem AddFromQueue_reports_added_witness:
  "newClusterQueue strict_def = Inr empty_cq \<and> run empty_cq [] = Some empty_cq \<and>
   enumerates two_items (q_items two_queue) \<and>
   (\<exists>info\<in>ran (q_items two_queue). items (cq_heap empty_cq) (Key (Obj info)) = None) \<and>
   (\<exists>cq'. AddFromQueue empty_cq two_items = Some (True, cq') \<and>
      Len (cq_heap cq') = Len (cq_heap empty_cq) + card (new_keys empty_cq two_queue) \<and>
      Len (cq_heap cq') = 2) \<and>
   (\<exists>cq. run empty_cq [OpAddFromQueue [info_a, info_b]] = Some cq \<and>
      items (cq_heap cq) (Key (Obj info_a)) \<noteq> None \<and>
      items (cq_heap cq) (Key (Obj info_b)) \<noteq> None \<and>
      AddFromQueue cq two_items = Some (False, cq))"
proof -
  have a: "\<exists>info\<in>ran (q_items two_queue). items (cq_heap empty_cq) (Key (Obj info)) = None"
    unfolding enumerates_ran[OF two_items_enumerates, symmetric]
    by (auto simp: two_items_def empty_cq_def)
  have e: "\<exists>cq'. AddFromQueue empty_cq two_items = Some (True, cq') \<and> Len (cq_heap cq') = 2"
    by (simp add: AddFromQueue_def two_items_def eval_defs)
  have first: "\<exists>cq'. AddFromQueue empty_cq two_items = Some (True, cq') \<and>
      Len (cq_heap cq') = Len (cq_heap empty_cq) + card (new_keys empty_cq two_queue) \<and>
      Len (cq_heap cq') = 2"
    using AddFromQueue_reports_added [OF new_strict run_nil two_items_enumerates] a e by auto
  obtain cq where r: "run empty_cq [OpAddFromQueue [info_a, info_b]] = Some cq"
      "items (cq_heap cq) ''ns/a'' \<noteq> None" "items (cq_heap cq) ''ns/b'' \<noteq> None"
    using run_add_two by blast
  have k: "Key (Obj info_a) = ''ns/a''" "Key (Obj info_b) = ''ns/b''"
    by (simp_all add: info_a_def info_b_def NewInfo_def Key_def workload_def)
  have "\<forall>info\<in>ran (q_items two_queue). items (cq_heap cq) (Key (Obj info)) \<noteq> None"
    unfolding enumerates_ran[OF two_items_enumerates, symmetric]
    using r(2,3) k by (simp add: two_items_def)
  then have second: "AddFromQueue cq two_items = Some (False, cq)"
    using AddFromQueue_reports_added [OF new_strict r(1) two_items_enumerates] by auto
  show ?thesis
    using first second a r k new_strict two_items_enumerates by auto
qed

subsection \<open>Construction\<close>

text \<open>
  C9: \<^verbatim>\<open>newClusterQueue\<close> with a strategy other than \<^verbatim>\<open>StrictFIFO\<close> returns the error and
  no ClusterQueue; with \<^verbatim>\<open>StrictFIFO\<close> it returns an empty ClusterQueue of that strategy
  whose comparator is \<^verbatim>\<open>strictFIFO\<close>.
\<close>

theorem newClusterQueue_strategy:
  "(def_QueueingStrategy d \<noteq> StrictFIFO \<longrightarrow>
      newClusterQueue d = Inl (InvalidQueueingStrategy (def_QueueingStrategy d))) \<and>
   (def_QueueingStrategy d = StrictFIFO \<longrightarrow>
      (\<exists>cq. newClusterQueue d = Inr cq \<and> less_fn (cq_heap cq) = strictFIFO \<and>
            cq_QueueingStrategy cq = StrictFIFO \<and> Len (cq_heap cq) = 0))"
  by (simp add: newClusterQueue_def Len_def)

theorem newClusterQueue_strategy_witness:
  "newClusterQueue \<lparr>def_QueueingStrategy = ''BestEffortFIFO''\<rparr>
     = Inl (InvalidQueueingStrategy ''BestEffortFIFO'') \<and>
   (\<exists>cq. newClusterQueue \<lparr>def_QueueingStrategy = ''StrictFIFO''\<rparr> = Inr cq \<and>
         less_fn (cq_heap cq) = strictFIFO \<and> cq_QueueingStrategy cq = StrictFIFO \<and>
         Len (cq_heap cq) = 0)"
  using newClusterQueue_strategy [of "\<lparr>def_QueueingStrategy = ''BestEffortFIFO''\<rparr>"]
    newClusterQueue_strategy [of "\<lparr>def_QueueingStrategy = ''StrictFIFO''\<rparr>"]
  by (simp add: StrictFIFO_def)

subsection \<open>Pop on an empty ClusterQueue\<close>

text \<open>
  C10: \<^verbatim>\<open>Pop\<close> on a ClusterQueue without entries returns nil, without a panic, and
  leaves the ClusterQueue as it is.
\<close>

theorem Pop_empty_returns_nil:
  "Len (cq_heap cq) = 0 \<Longrightarrow> Pop cq = Some (None, cq)"
  by (simp add: Pop_def)

theorem Pop_empty_returns_nil_witness:
  "Len (cq_heap empty_cq) = 0 \<and> Pop empty_cq = Some (None, empty_cq)"
proof -
  have e: "Len (cq_heap empty_cq) = 0" by (simp add: empty_cq_def Len_def)
  show ?thesis using e Pop_empty_returns_nil [OF e] by simp
qed

end
